theory Spec2Isabelle
  imports Main "HOL-Library.Monad_Syntax" "HOL-Library.AList" "HOL-Library.List_Lexorder"
    "HOL-Library.Multiset"
begin

section \<open>Data model\<close>

text \<open>
  The embedding follows \<^verbatim>\<open>SinglyLinkedList.h\<close>. Nodes live in an explicit heap; a
  pointer is an \<open>addr option\<close> with \<open>None\<close> for \<^verbatim>\<open>nullptr\<close>. A
  \<^verbatim>\<open>std::unique_ptr<Node>\<close> and a raw \<^verbatim>\<open>Node*\<close> are both such pointers: the ownership
  discipline of \<^verbatim>\<open>unique_ptr\<close> shows in the operations (\<open>reset\<close> deletes what the pointer
  owned, a move leaves \<^verbatim>\<open>nullptr\<close> behind), not in the type.

  The heap is a list of cells indexed by address; a freed cell is \<open>None\<close>.
  \<^verbatim>\<open>std::make_unique\<close> takes the cell after the last one, so a new node never has the
  address of a node that is or was live. Allocation is assumed to succeed and the element
  type's copy and move constructors are assumed not to throw.

  The field \<^verbatim>\<open>next\<close> of the source is \<open>nxt\<close> here (\<open>next\<close> is a keyword of the
  proof language), and \<^verbatim>\<open>head_\<close> and \<^verbatim>\<open>tail_\<close> are \<open>head\<close> and \<open>tail\<close> (a name
  cannot end in an underscore). \<^verbatim>\<open>list_size\<close> is a \<^verbatim>\<open>std::size_t\<close>; it is modelled by a natural
  number: it counts distinct live nodes, each of which takes more than one byte of a 64-bit
  address space, so the counter of a well-formed list never wraps, and it is decremented only
  after the list was found non-empty.
\<close>

type_synonym addr = nat

record 'a node =
  data :: 'a
  nxt :: "addr option"

type_synonym 'a heap = "'a node option list"

record sll =
  head :: "addr option"
  tail :: "addr option"
  list_size :: nat

text \<open>The two exceptions the container throws.\<close>

datatype error = Out_of_range | Invalid_argument

text \<open>
  The outcome of a call is \<open>None\<close> when the call has no defined result (it dereferences a
  pointer to no live node, or a loop of it never ends), and otherwise the returned value or
  the exception thrown, together with the state the call leaves behind.
\<close>

type_synonym 'a state = "'a heap \<times> sll"
type_synonym ('r, 's) outcome = "((error + 'r) \<times> 's) option"


section \<open>Heap primitives\<close>

definition lookup :: "'a heap \<Rightarrow> addr \<Rightarrow> 'a node option" where
  "lookup h a = (if a < length h then h ! a else None)"

text \<open>\<^verbatim>\<open>std::make_unique<Node>(value)\<close>: a new node with no successor.\<close>

definition make_unique :: "'a heap \<Rightarrow> 'a \<Rightarrow> addr \<times> 'a heap" where
  "make_unique h v = (length h, h @ [Some \<lparr>data = v, nxt = None\<rparr>])"

text \<open>
  \<^verbatim>\<open>delete p\<close> for a node pointer: the implicit destructor of \<^verbatim>\<open>Node\<close> destroys the
  member \<^verbatim>\<open>next\<close>, a \<^verbatim>\<open>unique_ptr\<close> whose destructor deletes the node it owns, and so on
  down the chain; the node's own storage is released after that. The result carries the heap,
  the addresses released in the order of their release, and the depth the nested destructor
  calls reach. The model puts no bound on that depth; the call stack of a machine does.
\<close>

partial_function (option) delete_node ::
  "'a heap \<Rightarrow> addr \<Rightarrow> ('a heap \<times> addr list \<times> nat) option" where
  "delete_node h a = do {
     n \<leftarrow> lookup h a;
     (h, freed, depth) \<leftarrow>
        (case nxt n of None \<Rightarrow> Some (h, [], 0) | Some b \<Rightarrow> delete_node h b);
     Some (h[a := None], freed @ [a], Suc depth) }"

declare delete_node.simps [code]

text \<open>The destructor of a \<^verbatim>\<open>unique_ptr\<close>: \<^verbatim>\<open>if (ptr) delete ptr\<close>.\<close>

definition dispose :: "'a heap \<Rightarrow> addr option \<Rightarrow> 'a heap option" where
  "dispose h p = (case p of None \<Rightarrow> Some h | Some a \<Rightarrow> map_option fst (delete_node h a))"

text \<open>
  \<^verbatim>\<open>p->next.reset(q)\<close>, which is also the effect of \<^verbatim>\<open>p->next = std::move(u)\<close> for a
  \<^verbatim>\<open>unique_ptr u\<close> holding \<open>q\<close>: the link is overwritten and the node it owned before
  is deleted.
\<close>

definition reset_next :: "'a heap \<Rightarrow> addr \<Rightarrow> addr option \<Rightarrow> 'a heap option" where
  "reset_next h p q = do {
     n \<leftarrow> lookup h p;
     dispose (h[p := Some (n\<lparr>nxt := q\<rparr>)]) (nxt n) }"

text \<open>
  \<^verbatim>\<open>p->next.release()\<close>, the reading half of \<^verbatim>\<open>std::move(p->next)\<close>: the link is
  returned and \<^verbatim>\<open>nullptr\<close> is left in its place.
\<close>

definition release_next :: "'a heap \<Rightarrow> addr \<Rightarrow> (addr option \<times> 'a heap) option" where
  "release_next h p = do {
     n \<leftarrow> lookup h p;
     Some (nxt n, h[p := Some (n\<lparr>nxt := None\<rparr>)]) }"

text \<open>\<^verbatim>\<open>head_.reset(q)\<close> and \<^verbatim>\<open>head_ = std::move(u)\<close>.\<close>

definition reset_head :: "'a state \<Rightarrow> addr option \<Rightarrow> 'a state option" where
  "reset_head s q = (case s of (h, l) \<Rightarrow> do {
     h \<leftarrow> dispose h (head l);
     Some (h, l\<lparr>head := q\<rparr>) })"


section \<open>Capacity and iteration\<close>

definition size_sll :: "sll \<Rightarrow> nat" where
  "size_sll l = list_size l"

definition empty_sll :: "sll \<Rightarrow> bool" where
  "empty_sll l = (list_size l = 0)"

definition begin_it :: "sll \<Rightarrow> addr option" where
  "begin_it l = head l"

definition end_it :: "addr option" where
  "end_it = None"

text \<open>
  Forward traversal, \<^verbatim>\<open>for (it = begin(); it != end(); ++it)\<close>, collecting the node
  visited and the element \<^verbatim>\<open>*it\<close> at every step.
\<close>

partial_function (option) traverse ::
  "'a heap \<Rightarrow> addr option \<Rightarrow> (addr \<times> 'a) list option" where
  "traverse h it =
     (case it of None \<Rightarrow> Some []
      | Some a \<Rightarrow> do {
          n \<leftarrow> lookup h a;
          rest \<leftarrow> traverse h (nxt n);
          Some ((a, data n) # rest) })"

declare traverse.simps [code]


section \<open>Modifiers\<close>

text \<open>
  A member function takes the heap and the fields of \<^verbatim>\<open>*this\<close> and returns them
  updated. The copying overload, the moving overload and the emplacing variant of an insertion
  have the same body in the source and differ only in how the element is constructed; the
  model, whose elements are values, has the one function for the first two and the emplacing
  variant as a function of the element the constructor arguments build.
\<close>

definition clear :: "'a state \<Rightarrow> 'a state option" where
  "clear s = do {
     (h, l) \<leftarrow> reset_head s None;
     let l = l\<lparr>tail := None\<rparr>;
     Some (h, l\<lparr>list_size := 0\<rparr>) }"

definition push_front :: "'a \<Rightarrow> 'a state \<Rightarrow> 'a state option" where
  "push_front v s = (case s of (h, l) \<Rightarrow> do {
     let (node, h) = make_unique h v;
     (h, l) \<leftarrow> (if head l = None then Some (h, l\<lparr>tail := Some node\<rparr>)
                else do {
                  h \<leftarrow> reset_next h node (head l);
                  Some (h, l\<lparr>head := None\<rparr>) });
     (h, l) \<leftarrow> reset_head (h, l) (Some node);
     Some (h, l\<lparr>list_size := list_size l + 1\<rparr>) })"

definition emplace_front :: "'a \<Rightarrow> 'a state \<Rightarrow> 'a state option" where
  "emplace_front v s = (case s of (h, l) \<Rightarrow> do {
     let (node, h) = make_unique h v;
     (h, l) \<leftarrow> (if head l = None then Some (h, l\<lparr>tail := Some node\<rparr>)
                else do {
                  h \<leftarrow> reset_next h node (head l);
                  Some (h, l\<lparr>head := None\<rparr>) });
     (h, l) \<leftarrow> reset_head (h, l) (Some node);
     Some (h, l\<lparr>list_size := list_size l + 1\<rparr>) })"

definition push_back :: "'a \<Rightarrow> 'a state \<Rightarrow> 'a state option" where
  "push_back v s = (case s of (h, l) \<Rightarrow> do {
     let (raw, h) = make_unique h v;
     (h, l) \<leftarrow> (if head l = None then reset_head (h, l) (Some raw)
                else do {
                  t \<leftarrow> tail l;
                  h \<leftarrow> reset_next h t (Some raw);
                  Some (h, l) });
     let l = l\<lparr>tail := Some raw\<rparr>;
     Some (h, l\<lparr>list_size := list_size l + 1\<rparr>) })"

definition emplace_back :: "'a \<Rightarrow> 'a state \<Rightarrow> 'a state option" where
  "emplace_back v s = (case s of (h, l) \<Rightarrow> do {
     let (raw, h) = make_unique h v;
     (h, l) \<leftarrow> (if head l = None then reset_head (h, l) (Some raw)
                else do {
                  t \<leftarrow> tail l;
                  h \<leftarrow> reset_next h t (Some raw);
                  Some (h, l) });
     let l = l\<lparr>tail := Some raw\<rparr>;
     Some (h, l\<lparr>list_size := list_size l + 1\<rparr>) })"

text \<open>
  \<^verbatim>\<open>head_ = std::move(head_->next)\<close> first takes the successor out of the old head node
  and then resets \<^verbatim>\<open>head_\<close> to it, which deletes the old head node.
\<close>

definition pop_front :: "'a state \<Rightarrow> (unit, 'a state) outcome" where
  "pop_front s = (case s of (h, l) \<Rightarrow>
     (case head l of
        None \<Rightarrow> Some (Inl Out_of_range, (h, l))
      | Some a \<Rightarrow> do {
          (succ, h) \<leftarrow> release_next h a;
          (h, l) \<leftarrow> reset_head (h, l) succ;
          let l = (if head l = None then l\<lparr>tail := None\<rparr> else l);
          Some (Inr (), (h, l\<lparr>list_size := list_size l - 1\<rparr>)) }))"

text \<open>
  The loop of \<^verbatim>\<open>pop_back\<close>:
  \<^verbatim>\<open>while (current->next.get() != tail_) current = current->next.get();\<close>
\<close>

partial_function (option) pop_back_loop ::
  "'a heap \<Rightarrow> addr option \<Rightarrow> addr option \<Rightarrow> addr option" where
  "pop_back_loop h t current = do {
     c \<leftarrow> current;
     n \<leftarrow> lookup h c;
     if nxt n \<noteq> t then pop_back_loop h t (nxt n) else Some c }"

declare pop_back_loop.simps [code]

definition pop_back :: "'a state \<Rightarrow> (unit, 'a state) outcome" where
  "pop_back s = (case s of (h, l) \<Rightarrow>
     (case head l of
        None \<Rightarrow> Some (Inl Out_of_range, (h, l))
      | Some a \<Rightarrow>
          if head l = tail l then pop_front (h, l)
          else do {
            current \<leftarrow> pop_back_loop h (tail l) (head l);
            h \<leftarrow> reset_next h current None;
            let l = l\<lparr>tail := Some current\<rparr>;
            Some (Inr (), (h, l\<lparr>list_size := list_size l - 1\<rparr>)) }))"

text \<open>An iterator is the pointer it holds; \<open>None\<close> is the end position.\<close>

definition insert_after ::
  "addr option \<Rightarrow> 'a \<Rightarrow> 'a state \<Rightarrow> (addr option, 'a state) outcome" where
  "insert_after pos v s = (case s of (h, l) \<Rightarrow>
     (case pos of
        None \<Rightarrow> Some (Inl Invalid_argument, (h, l))
      | Some current \<Rightarrow> do {
          let (raw, h) = make_unique h v;
          let l = (if tail l = Some current then l\<lparr>tail := Some raw\<rparr> else l);
          (succ, h) \<leftarrow> release_next h current;
          h \<leftarrow> reset_next h raw succ;
          h \<leftarrow> reset_next h current (Some raw);
          let l = l\<lparr>list_size := list_size l + 1\<rparr>;
          Some (Inr (Some raw), (h, l)) }))"

definition emplace_after ::
  "addr option \<Rightarrow> 'a \<Rightarrow> 'a state \<Rightarrow> (addr option, 'a state) outcome" where
  "emplace_after pos v s = (case s of (h, l) \<Rightarrow>
     (case pos of
        None \<Rightarrow> Some (Inl Invalid_argument, (h, l))
      | Some current \<Rightarrow> do {
          let (raw, h) = make_unique h v;
          let l = (if tail l = Some current then l\<lparr>tail := Some raw\<rparr> else l);
          (succ, h) \<leftarrow> release_next h current;
          h \<leftarrow> reset_next h raw succ;
          h \<leftarrow> reset_next h current (Some raw);
          let l = l\<lparr>list_size := list_size l + 1\<rparr>;
          Some (Inr (Some raw), (h, l)) }))"

text \<open>
  \<^verbatim>\<open>to_delete\<close> is a local \<^verbatim>\<open>unique_ptr\<close>: the node it owns is deleted when the
  function returns, after its successor was moved into \<^verbatim>\<open>current->next\<close>.
\<close>

definition erase_after :: "addr option \<Rightarrow> 'a state \<Rightarrow> (addr option, 'a state) outcome" where
  "erase_after pos s = (case s of (h, l) \<Rightarrow>
     (case pos of
        None \<Rightarrow> Some (Inl Out_of_range, (h, l))
      | Some current \<Rightarrow> do {
          c \<leftarrow> lookup h current;
          if nxt c = None then Some (Inl Out_of_range, (h, l))
          else do {
            (to_delete, h) \<leftarrow> release_next h current;
            d \<leftarrow> to_delete;
            n \<leftarrow> lookup h d;
            let next_node = nxt n;
            let l = (if tail l = to_delete then l\<lparr>tail := Some current\<rparr> else l);
            (succ, h) \<leftarrow> release_next h d;
            h \<leftarrow> reset_next h current succ;
            let l = l\<lparr>list_size := list_size l - 1\<rparr>;
            h \<leftarrow> dispose h to_delete;
            Some (Inr next_node, (h, l)) } }))"

text \<open>
  The loop of \<^verbatim>\<open>reverse\<close>. \<^verbatim>\<open>prev = current.release()\<close> empties \<^verbatim>\<open>current\<close>, so
  the move assignment \<^verbatim>\<open>current = std::move(next)\<close> deletes nothing.
\<close>

partial_function (option) reverse_loop ::
  "'a heap \<Rightarrow> addr option \<Rightarrow> addr option \<Rightarrow> ('a heap \<times> addr option) option" where
  "reverse_loop h prev current =
     (case current of
        None \<Rightarrow> Some (h, prev)
      | Some c \<Rightarrow> do {
          (succ, h) \<leftarrow> release_next h c;
          h \<leftarrow> reset_next h c prev;
          reverse_loop h (Some c) succ })"

declare reverse_loop.simps [code]

definition reverse :: "'a state \<Rightarrow> 'a state option" where
  "reverse s = (case s of (h, l) \<Rightarrow>
     if list_size l < 2 then Some (h, l)
     else do {
       let current = head l;
       let l = l\<lparr>head := None\<rparr>;
       let l = l\<lparr>tail := current\<rparr>;
       (h, prev) \<leftarrow> reverse_loop h None current;
       reset_head (h, l) prev })"


section \<open>Element access\<close>

text \<open>\<^verbatim>\<open>back\<close> is \<open>back_sll\<close> here (\<open>back\<close> is a keyword of the proof language).\<close>

definition front :: "'a state \<Rightarrow> ('a, 'a state) outcome" where
  "front s = (case s of (h, l) \<Rightarrow>
     (case head l of
        None \<Rightarrow> Some (Inl Out_of_range, (h, l))
      | Some a \<Rightarrow> do { n \<leftarrow> lookup h a; Some (Inr (data n), (h, l)) }))"

definition back_sll :: "'a state \<Rightarrow> ('a, 'a state) outcome" where
  "back_sll s = (case s of (h, l) \<Rightarrow>
     (case tail l of
        None \<Rightarrow> Some (Inl Out_of_range, (h, l))
      | Some a \<Rightarrow> do { n \<leftarrow> lookup h a; Some (Inr (data n), (h, l)) }))"


section \<open>Objects, lifecycle and assignment\<close>

text \<open>
  Several containers share the heap, and a call may name the same container twice, so the
  containers themselves are kept in a store, an association list from object identities to
  their fields. A constructor is given the identity of the storage it initialises.
\<close>

type_synonym oid = nat

record 'a world =
  mem :: "'a heap"
  objs :: "(oid \<times> sll) list"

definition on_object :: "oid \<Rightarrow> ('a state \<Rightarrow> 'a state option) \<Rightarrow> 'a world \<Rightarrow> 'a world option" where
  "on_object this f w = do {
     l \<leftarrow> map_of (objs w) this;
     (h, l) \<leftarrow> f (mem w, l);
     Some \<lparr>mem = h, objs = AList.update this l (objs w)\<rparr> }"

definition default_construct :: "oid \<Rightarrow> 'a world \<Rightarrow> 'a world" where
  "default_construct this w =
     w\<lparr>objs := AList.update this \<lparr>head = None, tail = None, list_size = 0\<rparr> (objs w)\<rparr>"

text \<open>The range-based loop of the copy constructor, \<^verbatim>\<open>for (const auto &val : other)\<close>.\<close>

partial_function (option) copy_loop :: "oid \<Rightarrow> addr option \<Rightarrow> 'a world \<Rightarrow> 'a world option" where
  "copy_loop this it w =
     (case it of
        None \<Rightarrow> Some w
      | Some a \<Rightarrow> do {
          n \<leftarrow> lookup (mem w) a;
          w \<leftarrow> on_object this (push_back (data n)) w;
          n \<leftarrow> lookup (mem w) a;
          copy_loop this (nxt n) w })"

declare copy_loop.simps [code]

definition copy_construct :: "oid \<Rightarrow> oid \<Rightarrow> 'a world \<Rightarrow> 'a world option" where
  "copy_construct this other w = do {
     let w = default_construct this w;
     o_l \<leftarrow> map_of (objs w) other;
     copy_loop this (begin_it o_l) w }"

text \<open>The loop of the initializer-list constructor.\<close>

fun init_loop :: "oid \<Rightarrow> 'a list \<Rightarrow> 'a world \<Rightarrow> 'a world option" where
  "init_loop this [] w = Some w"
| "init_loop this (v # vs) w = do {
     w \<leftarrow> on_object this (push_back v) w;
     init_loop this vs w }"

definition init_construct :: "oid \<Rightarrow> 'a list \<Rightarrow> 'a world \<Rightarrow> 'a world option" where
  "init_construct this ilist w = init_loop this ilist (default_construct this w)"

text \<open>
  The move constructor: the member initialisers take \<^verbatim>\<open>other\<close>'s head (leaving
  \<^verbatim>\<open>nullptr\<close>), tail and size, and the body clears \<^verbatim>\<open>other\<close>'s tail and size.
\<close>

definition move_construct :: "oid \<Rightarrow> oid \<Rightarrow> 'a world \<Rightarrow> 'a world option" where
  "move_construct this other w = do {
     o_l \<leftarrow> map_of (objs w) other;
     let os = AList.update other (o_l\<lparr>head := None\<rparr>) (objs w);
     let os = AList.update this \<lparr>head = head o_l, tail = tail o_l, list_size = list_size o_l\<rparr> os;
     o_l \<leftarrow> map_of os other;
     let os = AList.update other (o_l\<lparr>tail := None\<rparr>) os;
     o_l \<leftarrow> map_of os other;
     let os = AList.update other (o_l\<lparr>list_size := 0\<rparr>) os;
     Some (w\<lparr>objs := os\<rparr>) }"

text \<open>The defaulted destructor destroys the member \<^verbatim>\<open>head_\<close>; the object's life ends.\<close>

definition destroy :: "oid \<Rightarrow> 'a world \<Rightarrow> 'a world option" where
  "destroy this w = do {
     l \<leftarrow> map_of (objs w) this;
     h \<leftarrow> dispose (mem w) (head l);
     Some \<lparr>mem = h, objs = AList.delete this (objs w)\<rparr> }"

text \<open>
  \<^verbatim>\<open>std::swap\<close> on one member of two containers, which may be the same container: the
  second container is read again after the first was written.
\<close>

definition swap_field ::
  "(sll \<Rightarrow> 'f) \<Rightarrow> ('f \<Rightarrow> sll \<Rightarrow> sll) \<Rightarrow> oid \<Rightarrow> oid \<Rightarrow> (oid \<times> sll) list \<Rightarrow> (oid \<times> sll) list option" where
  "swap_field get put a b os = do {
     la \<leftarrow> map_of os a;
     lb \<leftarrow> map_of os b;
     let tmp = get la;
     let os = AList.update a (put (get lb) la) os;
     lb \<leftarrow> map_of os b;
     Some (AList.update b (put tmp lb) os) }"

definition swap :: "oid \<Rightarrow> oid \<Rightarrow> 'a world \<Rightarrow> 'a world option" where
  "swap a b w = do {
     os \<leftarrow> swap_field head (\<lambda>p l. l\<lparr>head := p\<rparr>) a b (objs w);
     os \<leftarrow> swap_field tail (\<lambda>p l. l\<lparr>tail := p\<rparr>) a b os;
     os \<leftarrow> swap_field list_size (\<lambda>n l. l\<lparr>list_size := n\<rparr>) a b os;
     Some (w\<lparr>objs := os\<rparr>) }"

text \<open>
  \<^verbatim>\<open>operator=(SinglyLinkedList other)\<close> takes its argument by value. The caller
  initialises the parameter object, at \<open>tmp\<close>, from the right-hand side, by the copy
  constructor for an lvalue and by the move constructor for an rvalue; the body swaps
  \<^verbatim>\<open>*this\<close> with it; the parameter is destroyed when the call is over.
\<close>

definition assign :: "oid \<Rightarrow> oid \<Rightarrow> 'a world \<Rightarrow> 'a world option" where
  "assign this other w = swap this other w"

definition copy_assign :: "oid \<Rightarrow> oid \<Rightarrow> oid \<Rightarrow> 'a world \<Rightarrow> 'a world option" where
  "copy_assign this src tmp w = do {
     w \<leftarrow> copy_construct tmp src w;
     w \<leftarrow> assign this tmp w;
     destroy tmp w }"

definition move_assign :: "oid \<Rightarrow> oid \<Rightarrow> oid \<Rightarrow> 'a world \<Rightarrow> 'a world option" where
  "move_assign this src tmp w = do {
     w \<leftarrow> move_construct tmp src w;
     w \<leftarrow> assign this tmp w;
     destroy tmp w }"


section \<open>Comparisons\<close>

text \<open>
  \<^verbatim>\<open>std::equal\<close> with three iterators and \<^verbatim>\<open>std::lexicographical_compare\<close>, as the
  standard library defines them, over the container's iterators. The elements' own
  \<^verbatim>\<open>==\<close> is equality and their \<^verbatim>\<open><\<close> is the order of the element type.
\<close>

partial_function (option) std_equal ::
  "'a heap \<Rightarrow> addr option \<Rightarrow> addr option \<Rightarrow> addr option \<Rightarrow> bool option" where
  "std_equal h first1 last1 first2 =
     (if first1 \<noteq> last1 then do {
        a \<leftarrow> first1;
        na \<leftarrow> lookup h a;
        b \<leftarrow> first2;
        nb \<leftarrow> lookup h b;
        if \<not> (data na = data nb) then Some False
        else std_equal h (nxt na) last1 (nxt nb) }
      else Some True)"

declare std_equal.simps [code]

partial_function (option) lexicographical_compare ::
  "('a::ord) heap \<Rightarrow> addr option \<Rightarrow> addr option \<Rightarrow> addr option \<Rightarrow> addr option \<Rightarrow> bool option" where
  "lexicographical_compare h first1 last1 first2 last2 =
     (if first1 \<noteq> last1 \<and> first2 \<noteq> last2 then do {
        a \<leftarrow> first1;
        na \<leftarrow> lookup h a;
        b \<leftarrow> first2;
        nb \<leftarrow> lookup h b;
        if data na < data nb then Some True
        else if data nb < data na then Some False
        else lexicographical_compare h (nxt na) last1 (nxt nb) last2 }
      else Some (first1 = last1 \<and> first2 \<noteq> last2))"

declare lexicographical_compare.simps [code]

definition op_eq :: "'a heap \<Rightarrow> sll \<Rightarrow> sll \<Rightarrow> bool option" where
  "op_eq h lhs rhs =
     (if size_sll lhs \<noteq> size_sll rhs then Some False
      else std_equal h (begin_it lhs) end_it (begin_it rhs))"

definition op_ne :: "'a heap \<Rightarrow> sll \<Rightarrow> sll \<Rightarrow> bool option" where
  "op_ne h lhs rhs = map_option Not (op_eq h lhs rhs)"

definition op_less :: "('a::ord) heap \<Rightarrow> sll \<Rightarrow> sll \<Rightarrow> bool option" where
  "op_less h lhs rhs =
     lexicographical_compare h (begin_it lhs) end_it (begin_it rhs) end_it"

definition op_le :: "('a::ord) heap \<Rightarrow> sll \<Rightarrow> sll \<Rightarrow> bool option" where
  "op_le h lhs rhs = map_option Not (op_less h rhs lhs)"

definition op_gt :: "('a::ord) heap \<Rightarrow> sll \<Rightarrow> sll \<Rightarrow> bool option" where
  "op_gt h lhs rhs = op_less h rhs lhs"

definition op_ge :: "('a::ord) heap \<Rightarrow> sll \<Rightarrow> sll \<Rightarrow> bool option" where
  "op_ge h lhs rhs = map_option Not (op_less h lhs rhs)"


section \<open>Calls\<close>

text \<open>The public operations that change or may fail, as calls on a world of containers.\<close>

datatype 'a call =
    Default_construct oid
  | Init_construct oid "'a list"
  | Copy_construct oid oid
  | Move_construct oid oid
  | Copy_assign oid oid oid
  | Move_assign oid oid oid
  | Destroy oid
  | Swap oid oid
  | Clear oid
  | Push_front oid 'a
  | Emplace_front oid 'a
  | Push_back oid 'a
  | Emplace_back oid 'a
  | Pop_front oid
  | Pop_back oid
  | Insert_after oid "addr option" 'a
  | Emplace_after oid "addr option" 'a
  | Erase_after oid "addr option"
  | Reverse oid
  | Front oid
  | Back oid

datatype 'a ret = Void | Elem 'a | Iter "addr option"

definition returns :: "'s option \<Rightarrow> ('a ret, 's) outcome" where
  "returns r = map_option (Pair (Inr Void)) r"

definition member ::
  "oid \<Rightarrow> ('a state \<Rightarrow> ('r, 'a state) outcome) \<Rightarrow> ('r \<Rightarrow> 'a ret) \<Rightarrow> 'a world \<Rightarrow> ('a ret, 'a world) outcome" where
  "member this f k w = do {
     l \<leftarrow> map_of (objs w) this;
     (r, h, l) \<leftarrow> f (mem w, l);
     Some (map_sum id k r, \<lparr>mem = h, objs = AList.update this l (objs w)\<rparr>) }"

fun exec :: "'a call \<Rightarrow> 'a world \<Rightarrow> ('a ret, 'a world) outcome" where
  "exec (Default_construct this) w = returns (Some (default_construct this w))"
| "exec (Init_construct this ilist) w = returns (init_construct this ilist w)"
| "exec (Copy_construct this other) w = returns (copy_construct this other w)"
| "exec (Move_construct this other) w = returns (move_construct this other w)"
| "exec (Copy_assign this src tmp) w = returns (copy_assign this src tmp w)"
| "exec (Move_assign this src tmp) w = returns (move_assign this src tmp w)"
| "exec (Destroy this) w = returns (destroy this w)"
| "exec (Swap a b) w = returns (swap a b w)"
| "exec (Clear this) w = returns (on_object this clear w)"
| "exec (Push_front this v) w = returns (on_object this (push_front v) w)"
| "exec (Emplace_front this v) w = returns (on_object this (emplace_front v) w)"
| "exec (Push_back this v) w = returns (on_object this (push_back v) w)"
| "exec (Emplace_back this v) w = returns (on_object this (emplace_back v) w)"
| "exec (Pop_front this) w = member this pop_front (\<lambda>_. Void) w"
| "exec (Pop_back this) w = member this pop_back (\<lambda>_. Void) w"
| "exec (Insert_after this pos v) w = member this (insert_after pos v) Iter w"
| "exec (Emplace_after this pos v) w = member this (emplace_after pos v) Iter w"
| "exec (Erase_after this pos) w = member this (erase_after pos) Iter w"
| "exec (Reverse this) w = returns (on_object this reverse w)"
| "exec (Front this) w = member this front Elem w"
| "exec (Back this) w = member this back_sll Elem w"


section \<open>Representation invariant\<close>

text \<open>
  \<open>path h p cs q\<close>: following the links from \<open>p\<close> visits the live nodes \<open>cs\<close>, given with
  their elements, and arrives at \<open>q\<close>.
\<close>

fun path :: "'a heap \<Rightarrow> addr option \<Rightarrow> (addr \<times> 'a) list \<Rightarrow> addr option \<Rightarrow> bool" where
  "path h p [] q = (p = q)"
| "path h p (c # cs) q =
     (p = Some (fst c) \<and>
      (case lookup h (fst c) of None \<Rightarrow> False
       | Some n \<Rightarrow> data n = snd c \<and> path h (nxt n) cs q))"

text \<open>
  The invariant of one container: the forward traversal from \<^verbatim>\<open>begin()\<close> ends; the count
  is 0 iff the head is null iff the tail is null; a non-null tail is a node of the chain
  whose link is null; and \<^verbatim>\<open>size()\<close> is the number of elements the traversal visits.
\<close>

definition wf_list :: "'a heap \<Rightarrow> sll \<Rightarrow> bool" where
  "wf_list h l =
     (case traverse h (begin_it l) of
        None \<Rightarrow> False
      | Some cs \<Rightarrow>
          (list_size l = 0 \<longleftrightarrow> head l = None) \<and>
          (head l = None \<longleftrightarrow> tail l = None) \<and>
          (case tail l of
             None \<Rightarrow> True
           | Some t \<Rightarrow> t \<in> set (map fst cs) \<and>
               (case lookup h t of None \<Rightarrow> False | Some n \<Rightarrow> nxt n = None)) \<and>
          size_sll l = length cs)"

text \<open>
  The same invariant with the chain named: \<open>repr h l cs\<close> says that the container \<open>l\<close>
  holds exactly the nodes \<open>cs\<close>, in this order. \<open>frame h h' A\<close> says that a step from heap
  \<open>h\<close> to \<open>h'\<close> left every cell of \<open>h\<close> outside \<open>A\<close> as it was.
\<close>

definition repr :: "'a heap \<Rightarrow> sll \<Rightarrow> (addr \<times> 'a) list \<Rightarrow> bool" where
  "repr h l cs \<longleftrightarrow>
     path h (head l) cs None \<and>
     tail l = (if cs = [] then None else Some (fst (last cs))) \<and>
     list_size l = length cs"

definition frame :: "'a heap \<Rightarrow> 'a heap \<Rightarrow> addr set \<Rightarrow> bool" where
  "frame h h' A \<longleftrightarrow>
     length h \<le> length h' \<and> (\<forall>b < length h. b \<notin> A \<longrightarrow> lookup h' b = lookup h b)"

definition nodes_of :: "'a heap \<Rightarrow> sll \<Rightarrow> addr list" where
  "nodes_of h l = (case traverse h (begin_it l) of None \<Rightarrow> [] | Some cs \<Rightarrow> map fst cs)"

definition elements :: "'a heap \<Rightarrow> sll \<Rightarrow> 'a list option" where
  "elements h l = map_option (map snd) (traverse h (begin_it l))"

text \<open>
  The invariant of a world: object identities are unique, every container is well formed, and
  no node belongs to two containers.
\<close>

definition world_inv :: "'a world \<Rightarrow> bool" where
  "world_inv w \<longleftrightarrow>
     distinct (map fst (objs w)) \<and>
     (\<forall>(i, l) \<in> set (objs w). wf_list (mem w) l) \<and>
     (\<forall>(i, li) \<in> set (objs w). \<forall>(j, lj) \<in> set (objs w).
        i \<noteq> j \<longrightarrow> set (nodes_of (mem w) li) \<inter> set (nodes_of (mem w) lj) = {})"

text \<open>
  A call respects the contract of the operation when the containers it names are alive, the
  storage a constructor or a by-value parameter is given holds no container, and a position
  passed to \<^verbatim>\<open>insert_after\<close>, \<^verbatim>\<open>emplace_after\<close> or \<^verbatim>\<open>erase_after\<close> is the end position or
  refers to a node of the container it is passed to.
\<close>

definition alive :: "'a world \<Rightarrow> oid \<Rightarrow> bool" where
  "alive w i = (map_of (objs w) i \<noteq> None)"

definition valid_pos :: "'a world \<Rightarrow> oid \<Rightarrow> addr option \<Rightarrow> bool" where
  "valid_pos w this pos =
     (case map_of (objs w) this of
        None \<Rightarrow> False
      | Some l \<Rightarrow> (case pos of None \<Rightarrow> True | Some p \<Rightarrow> p \<in> set (nodes_of (mem w) l)))"

fun valid_call :: "'a call \<Rightarrow> 'a world \<Rightarrow> bool" where
  "valid_call (Default_construct this) w = (\<not> alive w this)"
| "valid_call (Init_construct this ilist) w = (\<not> alive w this)"
| "valid_call (Copy_construct this other) w = (\<not> alive w this \<and> alive w other)"
| "valid_call (Move_construct this other) w = (\<not> alive w this \<and> alive w other)"
| "valid_call (Copy_assign this src tmp) w = (alive w this \<and> alive w src \<and> \<not> alive w tmp)"
| "valid_call (Move_assign this src tmp) w = (alive w this \<and> alive w src \<and> \<not> alive w tmp)"
| "valid_call (Destroy this) w = alive w this"
| "valid_call (Swap a b) w = (alive w a \<and> alive w b)"
| "valid_call (Clear this) w = alive w this"
| "valid_call (Push_front this v) w = alive w this"
| "valid_call (Emplace_front this v) w = alive w this"
| "valid_call (Push_back this v) w = alive w this"
| "valid_call (Emplace_back this v) w = alive w this"
| "valid_call (Pop_front this) w = alive w this"
| "valid_call (Pop_back this) w = alive w this"
| "valid_call (Insert_after this pos v) w = valid_pos w this pos"
| "valid_call (Emplace_after this pos v) w = valid_pos w this pos"
| "valid_call (Erase_after this pos) w = valid_pos w this pos"
| "valid_call (Reverse this) w = alive w this"
| "valid_call (Front this) w = alive w this"
| "valid_call (Back this) w = alive w this"


section \<open>Release traces, outcomes and reachable worlds\<close>

text \<open>
  What the destructor of a \<^verbatim>\<open>unique_ptr\<close> holding \<open>p\<close> releases, in order, and how deep the
  destructor calls nest.
\<close>

definition release_trace :: "'a heap \<Rightarrow> addr option \<Rightarrow> (addr list \<times> nat) option" where
  "release_trace h p =
     (case p of None \<Rightarrow> Some ([], 0) | Some a \<Rightarrow> map_option snd (delete_node h a))"

text \<open>How a call ended: with a given exception, or by returning.\<close>

definition throws :: "('r, 's) outcome \<Rightarrow> error \<Rightarrow> bool" where
  "throws r e = (case r of Some (Inl e', _) \<Rightarrow> e' = e | _ \<Rightarrow> False)"

definition succeeds :: "('r, 's) outcome \<Rightarrow> bool" where
  "succeeds r = (case r of Some (Inr _, _) \<Rightarrow> True | _ \<Rightarrow> False)"


text \<open>
  The worlds a program can reach: it starts with an empty heap and no container, and makes
  calls that respect the contracts.
\<close>

inductive reachable :: "'a world \<Rightarrow> bool" where
  initial: "reachable \<lparr>mem = [], objs = []\<rparr>"
| step: "reachable w \<Longrightarrow> valid_call c w \<Longrightarrow> exec c w = Some (r, w') \<Longrightarrow> reachable w'"

text \<open>
  Two notions for the proofs. \<open>store_inv\<close> is the invariant of a world over the store read
  as a map. \<open>local_step h l h' l'\<close> says that a step took a well-formed container \<open>l\<close> in
  heap \<open>h\<close> to a well-formed container \<open>l'\<close> in heap \<open>h'\<close>, touched no cell of \<open>h\<close> but
  the container's own nodes, and gave the container no node but its own or new ones.
\<close>

definition store_inv :: "'a heap \<Rightarrow> (oid \<rightharpoonup> sll) \<Rightarrow> bool" where
  "store_inv h m \<longleftrightarrow>
     (\<forall>i l. m i = Some l \<longrightarrow> wf_list h l) \<and>
     (\<forall>i j li lj. i \<noteq> j \<longrightarrow> m i = Some li \<longrightarrow> m j = Some lj \<longrightarrow>
        set (nodes_of h li) \<inter> set (nodes_of h lj) = {})"

definition local_step :: "'a heap \<Rightarrow> sll \<Rightarrow> 'a heap \<Rightarrow> sll \<Rightarrow> bool" where
  "local_step h l h' l' \<longleftrightarrow>
     (\<exists>cs cs'. repr h l cs \<and> repr h' l' cs' \<and> frame h h' (fst ` set cs) \<and>
        fst ` set cs' \<subseteq> fst ` set cs \<union> {a. length h \<le> a})"


section \<open>Properties of the heap and of the operations\<close>

subsection \<open>Heap cells\<close>

lemma lookup_update:
  "lookup (h[a := x]) b = (if b = a \<and> a < length h then x else lookup h b)"
  by (simp add: lookup_def)

lemma lookup_append: "lookup (h @ [x]) b = (if b = length h then x else lookup h b)"
  by (simp add: lookup_def nth_append)

lemma lookup_less: "lookup h a = Some n \<Longrightarrow> a < length h"
  by (simp add: lookup_def split: if_splits)

lemma heap_eqI:
  assumes "length h = length h'" and "\<And>a. lookup h a = lookup h' a"
  shows "h = h'"
proof (rule nth_equalityI)
  show "length h = length h'" by fact
next
  fix i assume "i < length h"
  with assms(1) assms(2)[of i] show "h ! i = h' ! i"
    by (simp add: lookup_def)
qed

subsection \<open>Paths\<close>

lemma path_None [simp]: "path h None cs q \<longleftrightarrow> cs = [] \<and> q = None"
  by (cases cs) auto

lemma path_Some:
  "path h (Some a) cs q \<longleftrightarrow>
     (cs = [] \<and> q = Some a) \<or>
     (\<exists>n ds. cs = (a, data n) # ds \<and> lookup h a = Some n \<and> path h (nxt n) ds q)"
  by (cases cs) (auto split: option.splits)

lemma path_append: "path h p (cs @ ds) q \<longleftrightarrow> (\<exists>r. path h p cs r \<and> path h r ds q)"
  by (induction cs arbitrary: p) (auto split: option.splits)

lemma path_update:
  "a \<notin> fst ` set cs \<Longrightarrow> path (h[a := x]) p cs q = path h p cs q"
  by (induction cs arbitrary: p) (auto simp: lookup_update split: option.splits)

lemma path_extend:
  "length h \<notin> fst ` set cs \<Longrightarrow> path (h @ [x]) p cs q = path h p cs q"
  by (induction cs arbitrary: p) (auto simp: lookup_append split: option.splits)

lemma path_live: "path h p cs q \<Longrightarrow> c \<in> set cs \<Longrightarrow> \<exists>n. lookup h (fst c) = Some n \<and> data n = snd c"
  by (induction cs arbitrary: p) (auto split: option.splits)

lemma path_less: "path h p cs q \<Longrightarrow> a \<in> fst ` set cs \<Longrightarrow> a < length h"
  by (auto dest!: path_live dest: lookup_less)

lemma path_fresh: "path h p cs q \<Longrightarrow> length h \<notin> fst ` set cs"
  by (auto dest: path_less)

lemma chain_unique: "path h p cs None \<Longrightarrow> path h p ds None \<Longrightarrow> cs = ds"
proof (induction cs arbitrary: p ds)
  case Nil
  then show ?case by simp
next
  case (Cons c cs)
  then show ?case by (cases ds) (auto split: option.splits simp: prod_eq_iff)
qed

lemma chain_hd_notin:
  assumes "lookup h a = Some n" and "path h (nxt n) cs None"
  shows "a \<notin> fst ` set cs"
proof
  assume "a \<in> fst ` set cs"
  then obtain v where "(a, v) \<in> set cs" by auto
  then obtain cs1 cs2 where cs: "cs = cs1 @ (a, v) # cs2"
    by (auto simp: in_set_conv_decomp)
  with assms have "path h (Some a) ((a, v) # cs2) None"
    by (auto simp: path_append split: option.splits)
  with assms(1) have "path h (nxt n) cs2 None" by auto
  with assms(2) have "cs = cs2" by (rule chain_unique)
  with cs show False by simp
qed

lemma chain_distinct: "path h p cs None \<Longrightarrow> distinct (map fst cs)"
proof (induction cs arbitrary: p)
  case Nil
  then show ?case by simp
next
  case (Cons c cs)
  then show ?case
    by (auto split: option.splits dest: chain_hd_notin)
qed

lemma chain_last:
  assumes "path h p (cs @ [c]) None"
  shows "\<exists>n. lookup h (fst c) = Some n \<and> data n = snd c \<and> nxt n = None"
  using assms by (auto simp: path_append split: option.splits)

lemma chain_null_link_last:
  assumes "path h p cs None" and "t \<in> fst ` set cs" and "lookup h t = Some n" and "nxt n = None"
  shows "cs \<noteq> [] \<and> t = fst (last cs)"
proof -
  from assms(2) obtain v where "(t, v) \<in> set cs" by auto
  then obtain cs1 cs2 where cs: "cs = cs1 @ (t, v) # cs2"
    by (auto simp: in_set_conv_decomp)
  with assms have "path h None cs2 None"
    by (auto simp: path_append split: option.splits)
  then have "cs2 = []" by simp
  with cs show ?thesis by simp
qed

subsection \<open>Traversal\<close>

lemma traverse_complete: "path h p cs None \<Longrightarrow> traverse h p = Some cs"
proof (induction cs arbitrary: p)
  case Nil
  then show ?case by (simp add: traverse.simps)
next
  case (Cons c cs)
  then show ?case
    by (subst traverse.simps) (auto split: option.splits)
qed

lemma traverse_sound: "traverse h p = Some cs \<Longrightarrow> path h p cs None"
proof (induction rule: traverse.raw_induct[rotated 1, consumes 1])
  case (1 traverse h it cs)
  then show ?case
    by (auto split: option.splits Option.bind_splits)
qed

lemma traverse_path: "traverse h p = Some cs \<longleftrightarrow> path h p cs None"
  by (blast intro: traverse_sound traverse_complete)


subsection \<open>Deletion and the pointer primitives\<close>

lemma delete_node_last:
  "lookup h a = Some n \<Longrightarrow> nxt n = None \<Longrightarrow> delete_node h a = Some (h[a := None], [a], 1)"
  by (subst delete_node.simps) simp

lemma delete_node_chain:
  assumes "path h (Some a) cs None"
  shows "\<exists>h'. delete_node h a = Some (h', rev (map fst cs), length cs) \<and>
           length h' = length h \<and>
           (\<forall>b. lookup h' b = (if b \<in> fst ` set cs then None else lookup h b))"
  using assms
proof (induction cs arbitrary: a)
  case Nil
  then show ?case by simp
next
  case (Cons c cs)
  then obtain n where n: "fst c = a" "lookup h a = Some n" "data n = snd c"
    and rest: "path h (nxt n) cs None"
    by (auto split: option.splits)
  have less: "a < length h" using n(2) by (rule lookup_less)
  show ?case
  proof (cases "nxt n")
    case None
    with rest have "cs = []" by simp
    with n None less show ?thesis
      by (simp add: delete_node_last lookup_update)
  next
    case (Some b)
    with rest have "path h (Some b) cs None" by simp
    from Cons.IH[OF this] obtain h' where h':
      "delete_node h b = Some (h', rev (map fst cs), length cs)"
      "length h' = length h"
      "\<forall>b. lookup h' b = (if b \<in> fst ` set cs then None else lookup h b)"
      by blast
    have "delete_node h a = Some (h'[a := None], rev (map fst (c # cs)), length (c # cs))"
      by (subst delete_node.simps) (simp add: n Some h')
    moreover have "\<forall>b. lookup (h'[a := None]) b =
        (if b \<in> fst ` set (c # cs) then None else lookup h b)"
      using h' less n(1) by (auto simp: lookup_update)
    ultimately show ?thesis using h'(2) by simp
  qed
qed

lemma dispose_None [simp]: "dispose h None = Some h"
  by (simp add: dispose_def)

lemma dispose_last:
  "lookup h a = Some n \<Longrightarrow> nxt n = None \<Longrightarrow> dispose h (Some a) = Some (h[a := None])"
  by (simp add: dispose_def delete_node_last)

lemma dispose_chain:
  assumes "path h p cs None"
  shows "\<exists>h'. dispose h p = Some h' \<and> length h' = length h \<and>
           (\<forall>b. lookup h' b = (if b \<in> fst ` set cs then None else lookup h b))"
proof (cases p)
  case None
  with assms show ?thesis by simp
next
  case (Some a)
  with assms delete_node_chain[of h a cs] show ?thesis
    by (auto simp: dispose_def)
qed

lemma release_next_eq:
  "lookup h p = Some n \<Longrightarrow> release_next h p = Some (nxt n, h[p := Some (n\<lparr>nxt := None\<rparr>)])"
  by (simp add: release_next_def)

lemma reset_next_null:
  "lookup h p = Some n \<Longrightarrow> nxt n = None \<Longrightarrow>
   reset_next h p q = Some (h[p := Some (n\<lparr>nxt := q\<rparr>)])"
  by (simp add: reset_next_def)

lemma reset_head_null:
  "head l = None \<Longrightarrow> reset_head (h, l) q = Some (h, l\<lparr>head := q\<rparr>)"
  by (simp add: reset_head_def)

subsection \<open>The modifiers in closed form\<close>

lemma push_front_eq:
  "push_front v (h, l) =
     Some (h @ [Some \<lparr>data = v, nxt = head l\<rparr>],
           l\<lparr>head := Some (length h),
             tail := (if head l = None then Some (length h) else tail l),
             list_size := list_size l + 1\<rparr>)"
  by (cases "head l")
     (simp_all add: push_front_def make_unique_def reset_head_def reset_next_def lookup_append)

lemma push_back_empty:
  "head l = None \<Longrightarrow>
   push_back v (h, l) =
     Some (h @ [Some \<lparr>data = v, nxt = None\<rparr>],
           l\<lparr>head := Some (length h), tail := Some (length h), list_size := list_size l + 1\<rparr>)"
  by (simp add: push_back_def make_unique_def reset_head_def)

lemma push_back_nonempty:
  assumes "head l \<noteq> None" and "tail l = Some t" and "lookup h t = Some n" and "nxt n = None"
  shows "push_back v (h, l) =
     Some ((h @ [Some \<lparr>data = v, nxt = None\<rparr>])[t := Some (n\<lparr>nxt := Some (length h)\<rparr>)],
           l\<lparr>tail := Some (length h), list_size := list_size l + 1\<rparr>)"
proof -
  have "t \<noteq> length h" using assms(3) by (auto dest: lookup_less)
  moreover from assms(1) obtain a where "head l = Some a" by auto
  ultimately show ?thesis using assms(2-)
    by (simp add: push_back_def make_unique_def reset_next_def lookup_append)
qed

lemma pop_front_empty:
  "head l = None \<Longrightarrow> pop_front (h, l) = Some (Inl Out_of_range, (h, l))"
  by (simp add: pop_front_def)

lemma pop_front_nonempty:
  assumes "head l = Some a" and "lookup h a = Some n"
  shows "pop_front (h, l) =
     Some (Inr (), (h[a := None],
                    l\<lparr>head := nxt n,
                      tail := (if nxt n = None then None else tail l),
                      list_size := list_size l - 1\<rparr>))"
proof -
  have "a < length h" using assms(2) by (rule lookup_less)
  then have "dispose (h[a := Some (n\<lparr>nxt := None\<rparr>)]) (Some a) = Some (h[a := None])"
    using dispose_last[of "h[a := Some (n\<lparr>nxt := None\<rparr>)]" a "n\<lparr>nxt := None\<rparr>"]
    by (simp add: lookup_update)
  with assms show ?thesis
    by (simp add: pop_front_def release_next_eq reset_head_def)
qed

lemma insert_after_end:
  "insert_after None v (h, l) = Some (Inl Invalid_argument, (h, l))"
  by (simp add: insert_after_def)

lemma insert_after_node:
  assumes "lookup h c = Some n"
  shows "insert_after (Some c) v (h, l) =
     Some (Inr (Some (length h)),
           ((h @ [Some \<lparr>data = v, nxt = nxt n\<rparr>])[c := Some (n\<lparr>nxt := Some (length h)\<rparr>)],
            l\<lparr>tail := (if tail l = Some c then Some (length h) else tail l),
              list_size := list_size l + 1\<rparr>))"
proof -
  have c: "c < length h" "c \<noteq> length h" using assms by (auto dest: lookup_less)
  let ?new = "Some \<lparr>data = v, nxt = None\<rparr>"
  let ?h1 = "h @ [?new]"
  let ?h2 = "?h1[c := Some (n\<lparr>nxt := None\<rparr>)]"
  let ?h3 = "?h2[length h := Some \<lparr>data = v, nxt = nxt n\<rparr>]"
  have 1: "release_next ?h1 c = Some (nxt n, ?h2)"
    using assms c by (simp add: release_next_eq lookup_append)
  have 2: "reset_next ?h2 (length h) (nxt n) = Some ?h3"
    using c by (simp add: reset_next_def lookup_update lookup_append)
  have 3: "reset_next ?h3 c (Some (length h)) =
      Some (?h3[c := Some (n\<lparr>nxt := Some (length h)\<rparr>)])"
    using c by (simp add: reset_next_def lookup_update lookup_append)
  have 4: "?h3[c := Some (n\<lparr>nxt := Some (length h)\<rparr>)] =
      (h @ [Some \<lparr>data = v, nxt = nxt n\<rparr>])[c := Some (n\<lparr>nxt := Some (length h)\<rparr>)]"
    using c by (intro heap_eqI) (auto simp: lookup_update lookup_append)
  show ?thesis
    unfolding insert_after_def make_unique_def
    by (simp add: 1 2 3 4 del: list_update_append1 cong: if_cong)
qed

lemma erase_after_end: "erase_after None (h, l) = Some (Inl Out_of_range, (h, l))"
  by (simp add: erase_after_def)

lemma erase_after_last:
  "lookup h c = Some n \<Longrightarrow> nxt n = None \<Longrightarrow>
   erase_after (Some c) (h, l) = Some (Inl Out_of_range, (h, l))"
  by (simp add: erase_after_def)

lemma erase_after_node:
  assumes "lookup h c = Some n" and "nxt n = Some d" and "lookup h d = Some m" and "c \<noteq> d"
  shows "erase_after (Some c) (h, l) =
     Some (Inr (nxt m),
           (h[c := Some (n\<lparr>nxt := nxt m\<rparr>), d := None],
            l\<lparr>tail := (if tail l = Some d then Some c else tail l),
              list_size := list_size l - 1\<rparr>))"
proof -
  have less: "c < length h" "d < length h" using assms by (auto dest: lookup_less)
  let ?h1 = "h[c := Some (n\<lparr>nxt := None\<rparr>)]"
  let ?h2 = "?h1[d := Some (m\<lparr>nxt := None\<rparr>)]"
  let ?h3 = "?h2[c := Some (n\<lparr>nxt := nxt m\<rparr>)]"
  have 1: "release_next h c = Some (Some d, ?h1)"
    using assms by (simp add: release_next_eq)
  have 2: "lookup ?h1 d = Some m"
    using assms less by (simp add: lookup_update)
  have 3: "release_next ?h1 d = Some (nxt m, ?h2)"
    using 2 by (simp add: release_next_eq)
  have 4: "reset_next ?h2 c (nxt m) = Some ?h3"
    using assms less by (simp add: reset_next_def lookup_update)
  have 5: "dispose ?h3 (Some d) = Some (?h3[d := None])"
    using assms less
    by (intro dispose_last[where n = "m\<lparr>nxt := None\<rparr>"]) (simp_all add: lookup_update)
  have 6: "?h3[d := None] = h[c := Some (n\<lparr>nxt := nxt m\<rparr>), d := None]"
    using assms less by (intro heap_eqI) (auto simp: lookup_update)
  show ?thesis
    unfolding erase_after_def
    by (simp add: assms 1 2 3 4 5 6 cong: if_cong)
qed


subsection \<open>The invariant, with the chain named\<close>

lemma wf_list_repr: "wf_list h l \<longleftrightarrow> (\<exists>cs. repr h l cs)"
proof
  assume wf: "wf_list h l"
  then obtain cs where tr: "traverse h (head l) = Some cs"
    by (auto simp: wf_list_def begin_it_def split: option.splits)
  then have p: "path h (head l) cs None" by (simp add: traverse_path)
  from wf tr have size: "list_size l = length cs"
    and hd: "list_size l = 0 \<longleftrightarrow> head l = None" "head l = None \<longleftrightarrow> tail l = None"
    and tl: "\<And>t. tail l = Some t \<Longrightarrow>
          t \<in> fst ` set cs \<and> (\<exists>n. lookup h t = Some n \<and> nxt n = None)"
    by (auto simp: wf_list_def begin_it_def size_sll_def split: option.splits)
  have "tail l = (if cs = [] then None else Some (fst (last cs)))"
  proof (cases "tail l")
    case None
    with hd size show ?thesis by auto
  next
    case (Some t)
    from tl[OF Some] obtain n where "t \<in> fst ` set cs" "lookup h t = Some n" "nxt n = None"
      by blast
    with p have "cs \<noteq> [] \<and> t = fst (last cs)"
      by (rule chain_null_link_last)
    with Some show ?thesis by simp
  qed
  with p size show "\<exists>cs. repr h l cs" by (auto simp: repr_def)
next
  assume "\<exists>cs. repr h l cs"
  then obtain cs where r: "repr h l cs" ..
  then have p: "path h (head l) cs None" by (simp add: repr_def)
  then have tr: "traverse h (head l) = Some cs" by (simp add: traverse_path)
  show "wf_list h l"
  proof (cases cs rule: rev_cases)
    case Nil
    with r tr show ?thesis
      by (simp add: wf_list_def repr_def begin_it_def size_sll_def)
  next
    case (snoc ds c)
    with p obtain n where "lookup h (fst c) = Some n" "nxt n = None"
      by (auto dest: chain_last)
    moreover from snoc p have "head l \<noteq> None" by (cases ds) auto
    ultimately show ?thesis using r tr snoc
      by (auto simp: wf_list_def repr_def begin_it_def size_sll_def)
  qed
qed

lemma repr_traverse: "repr h l cs \<Longrightarrow> traverse h (head l) = Some cs"
  by (simp add: repr_def traverse_path)

lemma wf_list_traverse: "wf_list h l \<Longrightarrow> traverse h (head l) = Some cs \<Longrightarrow> repr h l cs"
  by (metis wf_list_repr repr_traverse option.inject)

lemma repr_nodes_of: "repr h l cs \<Longrightarrow> nodes_of h l = map fst cs"
  by (simp add: nodes_of_def begin_it_def repr_traverse)

lemma repr_elements: "repr h l cs \<Longrightarrow> elements h l = Some (map snd cs)"
  by (simp add: elements_def begin_it_def repr_traverse)

lemma repr_unique: "repr h l cs \<Longrightarrow> repr h l ds \<Longrightarrow> cs = ds"
  by (auto simp: repr_def dest: chain_unique)

lemma repr_empty_iff: "repr h l cs \<Longrightarrow> (head l = None \<longleftrightarrow> cs = []) \<and> (tail l = None \<longleftrightarrow> cs = [])"
  by (cases cs) (auto simp: repr_def)

lemma frame_refl [simp]: "frame h h A"
  by (simp add: frame_def)

lemma frame_mono: "frame h h' A \<Longrightarrow> A \<subseteq> B \<Longrightarrow> frame h h' B"
  by (auto simp: frame_def)

lemma frame_trans: "frame h h' A \<Longrightarrow> frame h' h'' A \<Longrightarrow> frame h h'' A"
  by (auto simp: frame_def)

lemma frame_path:
  assumes "frame h h' A" and "path h p cs q" and "fst ` set cs \<inter> A = {}"
  shows "path h' p cs q"
  using assms(2,3)
proof (induction cs arbitrary: p)
  case Nil
  then show ?case by simp
next
  case (Cons c cs)
  then obtain n where n: "lookup h (fst c) = Some n" by (auto split: option.splits)
  then have "fst c < length h" by (rule lookup_less)
  with Cons.prems(2) assms(1) have "lookup h' (fst c) = lookup h (fst c)"
    by (auto simp: frame_def)
  with Cons n show ?case by (auto split: option.splits)
qed

lemma frame_repr:
  "frame h h' A \<Longrightarrow> repr h l cs \<Longrightarrow> fst ` set cs \<inter> A = {} \<Longrightarrow> repr h' l cs"
  by (auto simp: repr_def intro: frame_path)

subsection \<open>The modifiers on a well-formed container\<close>

lemma push_front_repr:
  assumes "repr h l cs"
  shows "\<exists>h' l'. push_front v (h, l) = Some (h', l') \<and>
           repr h' l' ((length h, v) # cs) \<and> frame h h' {}"
proof -
  let ?h = "h @ [Some \<lparr>data = v, nxt = head l\<rparr>]"
  from assms have p: "path h (head l) cs None" by (simp add: repr_def)
  then have "path ?h (head l) cs None"
    by (simp add: path_extend path_fresh)
  moreover have "frame h ?h {}" by (simp add: frame_def lookup_append)
  ultimately show ?thesis using assms repr_empty_iff[OF assms]
    by (auto simp: push_front_eq repr_def lookup_append)
qed

lemma push_back_repr:
  assumes "repr h l cs"
  shows "\<exists>h' l'. push_back v (h, l) = Some (h', l') \<and>
           repr h' l' (cs @ [(length h, v)]) \<and> frame h h' (fst ` set cs)"
proof (cases cs rule: rev_cases)
  case Nil
  with assms have "head l = None" by (simp add: repr_def)
  with assms Nil show ?thesis
    by (auto simp: push_back_empty repr_def lookup_append frame_def)
next
  case (snoc ds c)
  from assms have p: "path h (head l) cs None" by (simp add: repr_def)
  with snoc obtain n where n: "lookup h (fst c) = Some n" "data n = snd c" "nxt n = None"
    by (auto dest: chain_last)
  from snoc assms have hd: "head l \<noteq> None" and tl: "tail l = Some (fst c)"
    using repr_empty_iff[OF assms] by (auto simp: repr_def)
  let ?new = "Some \<lparr>data = v, nxt = None\<rparr>"
  let ?h = "(h @ [?new])[fst c := Some (n\<lparr>nxt := Some (length h)\<rparr>)]"
  have less: "fst c < length h" using n(1) by (rule lookup_less)
  from p[unfolded snoc] have "distinct (map fst (ds @ [c]))" by (rule chain_distinct)
  then have notin: "fst c \<notin> fst ` set ds" by auto
  from p snoc have "path h (head l) ds (Some (fst c))"
    by (auto simp: path_append split: option.splits)
  then have "path (h @ [?new]) (head l) ds (Some (fst c))"
    by (simp add: path_extend path_fresh)
  then have "path ?h (head l) ds (Some (fst c))"
    using notin by (simp add: path_update)
  moreover have "path ?h (Some (fst c)) [c, (length h, v)] None"
    using less n by (simp add: lookup_update lookup_append)
  ultimately have "path ?h (head l) (cs @ [(length h, v)]) None"
    unfolding snoc by (subst append_assoc, subst path_append) auto
  moreover have "frame h ?h (fst ` set cs)"
    using snoc by (auto simp: frame_def lookup_update lookup_append)
  moreover have "list_size l = length cs" using assms by (simp add: repr_def)
  ultimately show ?thesis
    unfolding push_back_nonempty[OF hd tl n(1) n(3)] by (simp add: repr_def)
qed

lemma pop_front_repr:
  assumes "repr h l (c # cs)"
  shows "\<exists>h' l'. pop_front (h, l) = Some (Inr (), (h', l')) \<and>
           repr h' l' cs \<and> frame h h' {fst c} \<and> lookup h' (fst c) = None"
proof -
  from assms obtain n where hd: "head l = Some (fst c)" and n: "lookup h (fst c) = Some n"
    and rest: "path h (nxt n) cs None"
    by (auto simp: repr_def split: option.splits)
  have less: "fst c < length h" using n by (rule lookup_less)
  from n rest have "fst c \<notin> fst ` set cs" by (rule chain_hd_notin)
  with rest have "path (h[fst c := None]) (nxt n) cs None" by (simp add: path_update)
  moreover have "frame h (h[fst c := None]) {fst c}"
    by (simp add: frame_def lookup_update)
  moreover have "nxt n = None \<longleftrightarrow> cs = []" using rest by (cases cs) auto
  ultimately show ?thesis using assms less
    by (auto simp: pop_front_nonempty[OF hd n] repr_def lookup_update)
qed

lemma pop_back_loop_finds:
  assumes "path h cur (cs @ [(p, x), (t, y)]) None"
  shows "pop_back_loop h (Some t) cur = Some p"
  using assms
proof (induction cs arbitrary: cur)
  case Nil
  then show ?case
    by (subst pop_back_loop.simps) (auto split: option.splits)
next
  case (Cons c cs)
  then obtain n where c: "cur = Some (fst c)" "lookup h (fst c) = Some n"
    and rest: "path h (nxt n) (cs @ [(p, x), (t, y)]) None"
    by (auto split: option.splits)
  from Cons.prems have "distinct (map fst ((c # cs) @ [(p, x), (t, y)]))"
    by (rule chain_distinct)
  then have "t \<noteq> p" "t \<notin> fst ` set cs" by auto
  with rest have "nxt n \<noteq> Some t" by (cases cs) (auto split: option.splits)
  with c Cons.IH[OF rest] show ?case
    by (subst pop_back_loop.simps) simp
qed

lemma pop_back_repr:
  assumes "repr h l (cs @ [c])"
  shows "\<exists>h' l'. pop_back (h, l) = Some (Inr (), (h', l')) \<and>
           repr h' l' cs \<and> frame h h' (fst ` set (cs @ [c])) \<and> lookup h' (fst c) = None"
proof (cases cs rule: rev_cases)
  case Nil
  with assms have "head l = Some (fst c)" "tail l = Some (fst c)"
    by (auto simp: repr_def split: option.splits)
  then have "pop_back (h, l) = pop_front (h, l)"
    by (simp add: pop_back_def)
  with pop_front_repr[of h l c "[]"] assms Nil show ?thesis
    by auto
next
  case (snoc ds d)
  from assms have p: "path h (head l) (ds @ [(fst d, snd d), (fst c, snd c)]) None"
    and tl: "tail l = Some (fst c)" and sz: "list_size l = length cs + 1"
    unfolding snoc by (simp_all add: repr_def)
  from p have loop: "pop_back_loop h (Some (fst c)) (head l) = Some (fst d)"
    by (rule pop_back_loop_finds)
  from p have "distinct (map fst (ds @ [(fst d, snd d), (fst c, snd c)]))"
    by (rule chain_distinct)
  then have dist: "distinct (map fst (ds @ [d, c]))" by simp
  then have ne: "fst d \<noteq> fst c" "fst c \<notin> fst ` set ds" "fst d \<notin> fst ` set ds" by auto
  from p have "head l \<noteq> Some (fst c)"
    using ne by (cases ds) auto
  with tl have hd: "head l \<noteq> tail l" by simp
  from p obtain a where a: "head l = Some a" by (cases ds) auto
  from p obtain n m where n: "lookup h (fst d) = Some n" "data n = snd d" "nxt n = Some (fst c)"
    and m: "lookup h (fst c) = Some m" "nxt m = None"
    and pre: "path h (head l) ds (Some (fst d))"
    by (auto simp: path_append split: option.splits)
  have less: "fst d < length h" "fst c < length h"
    using n m by (auto dest: lookup_less)
  let ?h1 = "h[fst d := Some (n\<lparr>nxt := None\<rparr>)]"
  let ?h2 = "?h1[fst c := None]"
  have "dispose ?h1 (Some (fst c)) = Some ?h2"
    using m ne by (intro dispose_last[where n = m]) (simp_all add: lookup_update)
  then have rn: "reset_next h (fst d) None = Some ?h2"
    using n by (simp add: reset_next_def)
  have "path ?h2 (head l) ds (Some (fst d))"
    using pre ne by (simp add: path_update)
  moreover have "path ?h2 (Some (fst d)) [d] None"
    using n ne less by (simp add: lookup_update)
  ultimately have "path ?h2 (head l) (ds @ [d]) None"
    by (subst path_append) blast
  moreover have "frame h ?h2 (fst ` set (cs @ [c]))"
    using snoc by (auto simp: frame_def lookup_update)
  moreover have "lookup ?h2 (fst c) = None"
    using less by (simp add: lookup_update)
  ultimately show ?thesis using hd a loop rn tl sz snoc
    by (simp add: pop_back_def repr_def)
qed


lemma repr_split:
  assumes "repr h l (cs1 @ (p, x) # cs2)"
  obtains n where "lookup h p = Some n" "data n = x" "path h (head l) cs1 (Some p)"
    "path h (nxt n) cs2 None" "p \<notin> fst ` set cs1" "p \<notin> fst ` set cs2"
    "fst ` set cs1 \<inter> fst ` set cs2 = {}" "p < length h"
proof -
  from assms have p: "path h (head l) (cs1 @ (p, x) # cs2) None" by (simp add: repr_def)
  then obtain n where n: "lookup h p = Some n" "data n = x" "path h (head l) cs1 (Some p)"
    "path h (nxt n) cs2 None"
    by (auto simp: path_append split: option.splits)
  from p have "distinct (map fst (cs1 @ (p, x) # cs2))" by (rule chain_distinct)
  then have "p \<notin> fst ` set cs1" "p \<notin> fst ` set cs2" "fst ` set cs1 \<inter> fst ` set cs2 = {}"
    by auto
  with n lookup_less[OF n(1)] that show thesis by blast
qed

lemma insert_after_repr:
  assumes "repr h l (cs1 @ (p, x) # cs2)"
  shows "\<exists>h' l'. insert_after (Some p) v (h, l) = Some (Inr (Some (length h)), (h', l')) \<and>
           repr h' l' (cs1 @ (p, x) # (length h, v) # cs2) \<and> frame h h' {p}"
proof -
  from assms obtain n where n: "lookup h p = Some n" "data n = x"
    and pre: "path h (head l) cs1 (Some p)" and post: "path h (nxt n) cs2 None"
    and notin: "p \<notin> fst ` set cs1" "p \<notin> fst ` set cs2" and less: "p < length h"
    by (rule repr_split)
  let ?h = "(h @ [Some \<lparr>data = v, nxt = nxt n\<rparr>])[p := Some (n\<lparr>nxt := Some (length h)\<rparr>)]"
  let ?l = "l\<lparr>tail := (if tail l = Some p then Some (length h) else tail l),
              list_size := list_size l + 1\<rparr>"
  have 1: "path ?h (head l) cs1 (Some p)"
    using pre notin by (simp add: path_update path_extend path_fresh)
  have 2: "path ?h (nxt n) cs2 None"
    using post notin by (simp add: path_update path_extend path_fresh)
  have 3: "path ?h (Some p) ((p, x) # (length h, v) # cs2) None"
    using 2 n less by (simp add: lookup_update lookup_append)
  have "path ?h (head ?l) (cs1 @ (p, x) # (length h, v) # cs2) None"
    using 1 3 by (subst path_append) auto
  moreover have "tail ?l = Some (fst (last (cs1 @ (p, x) # (length h, v) # cs2)))"
  proof (cases cs2 rule: rev_cases)
    case Nil
    with assms show ?thesis by (simp add: repr_def)
  next
    case (snoc ds d)
    with notin have "fst d \<noteq> p" by auto
    with assms snoc show ?thesis by (simp add: repr_def)
  qed
  moreover have "list_size ?l = length (cs1 @ (p, x) # (length h, v) # cs2)"
    using assms by (simp add: repr_def)
  moreover have "frame h ?h {p}"
    by (auto simp: frame_def lookup_update lookup_append)
  ultimately show ?thesis
    unfolding insert_after_node[OF n(1)] by (simp add: repr_def)
qed

lemma erase_after_repr:
  assumes "repr h l (cs1 @ (p, x) # (q, y) # cs2)"
  shows "\<exists>h' l'. erase_after (Some p) (h, l) =
             Some (Inr (case cs2 of [] \<Rightarrow> None | c # _ \<Rightarrow> Some (fst c)), (h', l')) \<and>
           repr h' l' (cs1 @ (p, x) # cs2) \<and> frame h h' {p, q} \<and> lookup h' q = None"
proof -
  from assms obtain n where n: "lookup h p = Some n" "data n = x"
    and pre: "path h (head l) cs1 (Some p)" and post: "path h (nxt n) ((q, y) # cs2) None"
    and notin: "p \<notin> fst ` set cs1" "p \<notin> fst ` set ((q, y) # cs2)"
    and disj: "fst ` set cs1 \<inter> fst ` set ((q, y) # cs2) = {}" and less: "p < length h"
    by (rule repr_split)
  from post obtain m where m: "nxt n = Some q" "lookup h q = Some m" "data m = y"
    and rest: "path h (nxt m) cs2 None"
    by (auto split: option.splits)
  from m rest have q2: "q \<notin> fst ` set cs2" by (intro chain_hd_notin)
  from notin disj have ne: "p \<noteq> q" and q1: "q \<notin> fst ` set cs1" and p2: "p \<notin> fst ` set cs2"
    by auto
  have qless: "q < length h" using m(2) by (rule lookup_less)
  let ?h = "h[p := Some (n\<lparr>nxt := nxt m\<rparr>), q := None]"
  let ?l = "l\<lparr>tail := (if tail l = Some q then Some p else tail l),
              list_size := list_size l - 1\<rparr>"
  have 1: "path ?h (head l) cs1 (Some p)"
    using pre notin q1 by (simp add: path_update)
  have 2: "path ?h (nxt m) cs2 None"
    using rest p2 q2 by (simp add: path_update)
  have 3: "path ?h (Some p) ((p, x) # cs2) None"
    using 2 n less ne by (simp add: lookup_update)
  have "path ?h (head ?l) (cs1 @ (p, x) # cs2) None"
    using 1 3 by (subst path_append) auto
  moreover have "tail ?l = Some (fst (last (cs1 @ (p, x) # cs2)))"
  proof (cases cs2 rule: rev_cases)
    case Nil
    with assms show ?thesis by (simp add: repr_def)
  next
    case (snoc ds d)
    with q2 have "fst d \<noteq> q" by auto
    with assms snoc show ?thesis by (simp add: repr_def)
  qed
  moreover have "list_size ?l = length (cs1 @ (p, x) # cs2)"
    using assms by (simp add: repr_def)
  moreover have "frame h ?h {p, q}"
    by (auto simp: frame_def lookup_update)
  moreover have "lookup ?h q = None"
    using qless by (simp add: lookup_update)
  moreover have "nxt m = (case cs2 of [] \<Rightarrow> None | c # _ \<Rightarrow> Some (fst c))"
    using rest by (cases cs2) auto
  ultimately show ?thesis
    unfolding erase_after_node[OF n(1) m(1) m(2) ne] by (simp add: repr_def)
qed

lemma erase_after_repr_last:
  assumes "repr h l (cs1 @ [(p, x)])"
  shows "erase_after (Some p) (h, l) = Some (Inl Out_of_range, (h, l))"
proof -
  from assms have "path h (head l) (cs1 @ [(p, x)]) None" by (simp add: repr_def)
  then obtain n where "lookup h p = Some n" "nxt n = None"
    by (auto dest: chain_last)
  then show ?thesis by (rule erase_after_last)
qed

lemma reverse_loop_step:
  assumes "lookup h c = Some n"
  shows "reverse_loop h prev (Some c) =
     reverse_loop (h[c := Some (n\<lparr>nxt := prev\<rparr>)]) (Some c) (nxt n)"
proof -
  have "c < length h" using assms by (rule lookup_less)
  then have "reset_next (h[c := Some (n\<lparr>nxt := None\<rparr>)]) c prev =
      Some (h[c := Some (n\<lparr>nxt := prev\<rparr>)])"
    by (simp add: reset_next_def lookup_update)
  with assms show ?thesis
    by (subst reverse_loop.simps) (simp add: release_next_eq)
qed

lemma reverse_loop_chain:
  assumes "path h cur cs None" and "path h prev ps None"
    and "fst ` set cs \<inter> fst ` set ps = {}"
  shows "\<exists>h' r. reverse_loop h prev cur = Some (h', r) \<and>
           r = (if cs = [] then prev else Some (fst (last cs))) \<and>
           path h' r (rev cs @ ps) None \<and> length h' = length h \<and>
           (\<forall>b. b \<notin> fst ` set cs \<longrightarrow> lookup h' b = lookup h b)"
  using assms
proof (induction cs arbitrary: h cur prev ps)
  case Nil
  then show ?case by (simp add: reverse_loop.simps)
next
  case (Cons c cs)
  from Cons.prems(1) obtain n where c: "cur = Some (fst c)" "lookup h (fst c) = Some n"
    "data n = snd c" and rest: "path h (nxt n) cs None"
    by (auto split: option.splits)
  have less: "fst c < length h" using c(2) by (rule lookup_less)
  from c(2) rest have c1: "fst c \<notin> fst ` set cs" by (rule chain_hd_notin)
  from Cons.prems(3) have c2: "fst c \<notin> fst ` set ps" by auto
  let ?h = "h[fst c := Some (n\<lparr>nxt := prev\<rparr>)]"
  have 1: "path ?h (nxt n) cs None" using rest c1 by (simp add: path_update)
  have "path ?h prev ps None" using Cons.prems(2) c2 by (simp add: path_update)
  then have 2: "path ?h (Some (fst c)) (c # ps) None"
    using less c(3) by (simp add: lookup_update)
  have 3: "fst ` set cs \<inter> fst ` set (c # ps) = {}"
    using Cons.prems(3) c1 by auto
  from Cons.IH[OF 1 2 3] obtain h' r where IH:
    "reverse_loop ?h (Some (fst c)) (nxt n) = Some (h', r)"
    "r = (if cs = [] then Some (fst c) else Some (fst (last cs)))"
    "path h' r (rev cs @ c # ps) None" "length h' = length ?h"
    "\<forall>b. b \<notin> fst ` set cs \<longrightarrow> lookup h' b = lookup ?h b"
    by blast
  have "reverse_loop h prev cur = Some (h', r)"
    using IH(1) c(1) reverse_loop_step[OF c(2)] by simp
  moreover have "\<forall>b. b \<notin> fst ` set (c # cs) \<longrightarrow> lookup h' b = lookup h b"
    using IH(5) by (auto simp: lookup_update)
  ultimately show ?case using IH(2,3,4) by simp
qed

lemma reverse_small:
  "list_size l < 2 \<Longrightarrow> reverse (h, l) = Some (h, l)"
  by (simp add: reverse_def)

lemma reverse_repr:
  assumes "repr h l cs"
  shows "\<exists>h' l'. reverse (h, l) = Some (h', l') \<and> repr h' l' (rev cs) \<and>
           frame h h' (fst ` set cs)"
proof (cases "list_size l < 2")
  case True
  with assms have "length cs < 2" by (simp add: repr_def)
  then have "rev cs = cs"
    by (cases cs) (auto simp: less_Suc_eq)
  with True assms show ?thesis by (auto simp: reverse_small)
next
  case False
  with assms have len: "2 \<le> length cs" by (simp add: repr_def)
  then obtain c ds where cs: "cs = c # ds" by (cases cs) auto
  from assms have p: "path h (head l) cs None" by (simp add: repr_def)
  with cs have hd: "head l = Some (fst c)" by simp
  from reverse_loop_chain[OF p, of None "[]"] cs
  obtain h' where loop: "reverse_loop h None (head l) = Some (h', Some (fst (last cs)))"
    and p': "path h' (Some (fst (last cs))) (rev cs) None" and len': "length h' = length h"
    and fr: "\<forall>b. b \<notin> fst ` set cs \<longrightarrow> lookup h' b = lookup h b"
    by auto
  let ?l = "l\<lparr>head := Some (fst (last cs)), tail := head l\<rparr>"
  have "reverse (h, l) = Some (h', ?l)"
    using False loop by (simp add: reverse_def reset_head_null)
  moreover have "repr h' ?l (rev cs)"
    using p' assms cs hd by (simp add: repr_def)
  moreover have "frame h h' (fst ` set cs)"
    using fr len' by (simp add: frame_def)
  ultimately show ?thesis by blast
qed

lemma clear_repr:
  assumes "repr h l cs"
  shows "\<exists>h'. clear (h, l) = Some (h', \<lparr>head = None, tail = None, list_size = 0\<rparr>) \<and>
           length h' = length h \<and>
           (\<forall>b. lookup h' b = (if b \<in> fst ` set cs then None else lookup h b))"
proof -
  from assms have "path h (head l) cs None" by (simp add: repr_def)
  from dispose_chain[OF this] obtain h' where
    "dispose h (head l) = Some h'" "length h' = length h"
    "\<forall>b. lookup h' b = (if b \<in> fst ` set cs then None else lookup h b)"
    by blast
  then show ?thesis
    by (simp add: clear_def reset_head_def)
qed

lemma repr_empty: "repr h \<lparr>head = None, tail = None, list_size = 0\<rparr> []"
  by (simp add: repr_def)

lemma front_repr:
  "repr h l (c # cs) \<Longrightarrow> front (h, l) = Some (Inr (snd c), (h, l))"
  by (auto simp: repr_def front_def split: option.splits)

lemma back_repr:
  assumes "repr h l (cs @ [c])"
  shows "back_sll (h, l) = Some (Inr (snd c), (h, l))"
proof -
  from assms have "path h (head l) (cs @ [c]) None" "tail l = Some (fst c)"
    by (simp_all add: repr_def)
  then show ?thesis by (auto simp: back_sll_def dest: chain_last)
qed

section \<open>Claims on one container\<close>

subsection \<open>Insertion after a position\<close>

lemma insert_after_on_node:
  assumes "wf_list h l" and "traverse h (begin_it l) = Some (cs1 @ (p, x) # cs2)"
  shows "\<exists>a h' l'.
       insert_after (Some p) v (h, l) = Some (Inr (Some a), (h', l')) \<and>
       lookup h a = None \<and>
       lookup h' p = Some \<lparr>data = x, nxt = Some a\<rparr> \<and>
       lookup h' a = Some \<lparr>data = v, nxt = (case cs2 of [] \<Rightarrow> None | c # _ \<Rightarrow> Some (fst c))\<rparr> \<and>
       traverse h' (begin_it l') = Some (cs1 @ (p, x) # (a, v) # cs2) \<and>
       tail l' = (if tail l = Some p then Some a else tail l) \<and>
       size_sll l' = size_sll l + 1 \<and>
       wf_list h' l'"
proof -
  from assms have r: "repr h l (cs1 @ (p, x) # cs2)"
    by (simp add: wf_list_traverse begin_it_def)
  from insert_after_repr[OF r, of v] obtain h' l' where
    run: "insert_after (Some p) v (h, l) = Some (Inr (Some (length h)), (h', l'))"
    and r': "repr h' l' (cs1 @ (p, x) # (length h, v) # cs2)"
    by blast
  from r obtain n where n: "lookup h p = Some n"
    by (rule repr_split)
  from run have l': "l' = l\<lparr>tail := (if tail l = Some p then Some (length h) else tail l),
      list_size := list_size l + 1\<rparr>"
    by (simp add: insert_after_node[OF n])
  from r' have p': "path h' (head l') (cs1 @ (p, x) # (length h, v) # cs2) None"
    by (simp add: repr_def)
  then obtain m k where m: "lookup h' p = Some m" "data m = x" "nxt m = Some (length h)"
    and k: "lookup h' (length h) = Some k" "data k = v" "path h' (nxt k) cs2 None"
    by (auto simp: path_append split: option.splits)
  have "nxt k = (case cs2 of [] \<Rightarrow> None | c # _ \<Rightarrow> Some (fst c))"
    using k(3) by (cases cs2) auto
  with k have "lookup h' (length h) =
      Some \<lparr>data = v, nxt = (case cs2 of [] \<Rightarrow> None | c # _ \<Rightarrow> Some (fst c))\<rparr>"
    by simp
  moreover from m have "lookup h' p = Some \<lparr>data = x, nxt = Some (length h)\<rparr>" by simp
  moreover have "lookup h (length h) = None" by (simp add: lookup_def)
  moreover have "traverse h' (begin_it l') = Some (cs1 @ (p, x) # (length h, v) # cs2)"
    using r' by (simp add: begin_it_def repr_traverse)
  moreover have "wf_list h' l'" using r' by (auto simp: wf_list_repr)
  moreover have "tail l' = (if tail l = Some p then Some (length h) else tail l)"
    "size_sll l' = size_sll l + 1"
    by (simp_all add: l' size_sll_def)
  ultimately show ?thesis using run by simp
qed

text \<open>
  Claim C2. With the end position \<^verbatim>\<open>insert_after(pos, v)\<close> throws
  \<^verbatim>\<open>std::invalid_argument\<close> (the spec's InvalidPosition), on every container, and the heap
  and the container are as before. Let \<open>pos\<close> refer to a node \<open>p\<close> of a well-formed
  container, with the nodes \<open>cs1\<close> before it and \<open>cs2\<close> after it. Then
  \<^verbatim>\<open>insert_after(pos, v)\<close> returns an iterator to a new node \<open>a\<close> holding \<open>v\<close>, linked
  between \<open>p\<close> and the former successor of \<open>p\<close>; the traversal visits the old nodes with
  their old elements in the old order, with \<open>a\<close> right after \<open>p\<close>; \<open>a\<close> is the tail when
  \<open>p\<close> was, and the tail is as before otherwise; the size grows by 1; the container stays
  well formed.
\<close>

theorem insert_after_spec:
  "insert_after end_it v (h, l) = Some (Inl Invalid_argument, (h, l)) \<and>
   (wf_list h l \<and> traverse h (begin_it l) = Some (cs1 @ (p, x) # cs2) \<longrightarrow>
    (\<exists>a h' l'.
       insert_after (Some p) v (h, l) = Some (Inr (Some a), (h', l')) \<and>
       lookup h a = None \<and>
       lookup h' p = Some \<lparr>data = x, nxt = Some a\<rparr> \<and>
       lookup h' a = Some \<lparr>data = v, nxt = (case cs2 of [] \<Rightarrow> None | c # _ \<Rightarrow> Some (fst c))\<rparr> \<and>
       traverse h' (begin_it l') = Some (cs1 @ (p, x) # (a, v) # cs2) \<and>
       tail l' = (if tail l = Some p then Some a else tail l) \<and>
       size_sll l' = size_sll l + 1 \<and>
       wf_list h' l'))"
proof (intro conjI impI)
  show "insert_after end_it v (h, l) = Some (Inl Invalid_argument, (h, l))"
    by (simp add: end_it_def insert_after_end)
next
  assume "wf_list h l \<and> traverse h (begin_it l) = Some (cs1 @ (p, x) # cs2)"
  then show "\<exists>a h' l'.
       insert_after (Some p) v (h, l) = Some (Inr (Some a), (h', l')) \<and>
       lookup h a = None \<and>
       lookup h' p = Some \<lparr>data = x, nxt = Some a\<rparr> \<and>
       lookup h' a = Some \<lparr>data = v, nxt = (case cs2 of [] \<Rightarrow> None | c # _ \<Rightarrow> Some (fst c))\<rparr> \<and>
       traverse h' (begin_it l') = Some (cs1 @ (p, x) # (a, v) # cs2) \<and>
       tail l' = (if tail l = Some p then Some a else tail l) \<and>
       size_sll l' = size_sll l + 1 \<and>
       wf_list h' l'"
    by (intro insert_after_on_node) simp_all
qed

text \<open>
  The theorem on \<^verbatim>\<open>[10, 50]\<close> with \<^verbatim>\<open>insert_after(begin(), 20)\<close> and with
  \<^verbatim>\<open>insert_after(end(), 20)\<close>.
\<close>

theorem insert_after_spec_witness:
  "wf_list [Some \<lparr>data = 10::int, nxt = Some 1\<rparr>, Some \<lparr>data = 50, nxt = None\<rparr>]
     \<lparr>head = Some 0, tail = Some 1, list_size = 2\<rparr> \<and>
   traverse [Some \<lparr>data = 10::int, nxt = Some 1\<rparr>, Some \<lparr>data = 50, nxt = None\<rparr>]
     (begin_it \<lparr>head = Some 0, tail = Some 1, list_size = 2\<rparr>) = Some [(0, 10), (1, 50)] \<and>
   (\<exists>a h' l'.
      insert_after (Some 0) 20
        ([Some \<lparr>data = 10::int, nxt = Some 1\<rparr>, Some \<lparr>data = 50, nxt = None\<rparr>],
         \<lparr>head = Some 0, tail = Some 1, list_size = 2\<rparr>) = Some (Inr (Some a), (h', l')) \<and>
      traverse h' (begin_it l') = Some [(0, 10), (a, 20), (1, 50)] \<and>
      size_sll l' = 3) \<and>
   insert_after end_it 20
     ([Some \<lparr>data = 10::int, nxt = Some 1\<rparr>, Some \<lparr>data = 50, nxt = None\<rparr>],
      \<lparr>head = Some 0, tail = Some 1, list_size = 2\<rparr>) =
     Some (Inl Invalid_argument,
       ([Some \<lparr>data = 10::int, nxt = Some 1\<rparr>, Some \<lparr>data = 50, nxt = None\<rparr>],
        \<lparr>head = Some 0, tail = Some 1, list_size = 2\<rparr>))"
proof -
  let ?h = "[Some \<lparr>data = 10::int, nxt = Some 1\<rparr>, Some \<lparr>data = 50, nxt = None\<rparr>]"
  let ?l = "\<lparr>head = Some 0, tail = Some 1, list_size = 2\<rparr>"
  have wf: "wf_list ?h ?l" by code_simp
  have tr: "traverse ?h (begin_it ?l) = Some ([] @ (0, 10) # [(1, 50)])" by code_simp
  from insert_after_spec[where v = 20 and h = ?h and l = ?l and ?cs1.0 = "[]" and p = 0
      and x = 10 and ?cs2.0 = "[(1, 50)]"] wf tr
  show ?thesis
    by (auto simp: size_sll_def)
qed

subsection \<open>Erasure after a position\<close>

lemma erase_after_on_node:
  assumes "wf_list h l" and "traverse h (begin_it l) = Some (cs1 @ (p, x) # cs2)"
  shows "case cs2 of
       [] \<Rightarrow> erase_after (Some p) (h, l) = Some (Inl Out_of_range, (h, l))
     | (q, y) # cs3 \<Rightarrow>
         (\<exists>h' l'.
            erase_after (Some p) (h, l) =
              Some (Inr (case cs3 of [] \<Rightarrow> end_it | c # _ \<Rightarrow> Some (fst c)), (h', l')) \<and>
            lookup h' q = None \<and>
            traverse h' (begin_it l') = Some (cs1 @ (p, x) # cs3) \<and>
            tail l' = (if tail l = Some q then Some p else tail l) \<and>
            size_sll l' + 1 = size_sll l \<and>
            wf_list h' l')"
proof -
  from assms have r: "repr h l (cs1 @ (p, x) # cs2)"
    by (simp add: wf_list_traverse begin_it_def)
  show ?thesis
  proof (cases cs2)
    case Nil
    with r show ?thesis by (simp add: erase_after_repr_last)
  next
    case (Cons d cs3)
    obtain q y where d: "d = (q, y)" by (cases d)
    from r have r0: "repr h l (cs1 @ (p, x) # (q, y) # cs3)" by (simp add: Cons d)
    from erase_after_repr[OF r0] obtain h' l' where
      run: "erase_after (Some p) (h, l) =
          Some (Inr (case cs3 of [] \<Rightarrow> None | c # _ \<Rightarrow> Some (fst c)), (h', l'))"
      and r': "repr h' l' (cs1 @ (p, x) # cs3)" and gone: "lookup h' q = None"
      by blast
    from r0 obtain n where n: "lookup h p = Some n" "path h (nxt n) ((q, y) # cs3) None"
      and notin: "p \<notin> fst ` set ((q, y) # cs3)"
      by (rule repr_split)
    from n(2) obtain m where m: "nxt n = Some q" "lookup h q = Some m"
      by (auto split: option.splits)
    from notin have ne: "p \<noteq> q" by auto
    from run have l': "l' = l\<lparr>tail := (if tail l = Some q then Some p else tail l),
        list_size := list_size l - 1\<rparr>"
      by (simp add: erase_after_node[OF n(1) m ne])
    from r0 have "list_size l = Suc (Suc (length cs1 + length cs3))"
      by (simp add: repr_def)
    with l' have "tail l' = (if tail l = Some q then Some p else tail l)"
      "size_sll l' + 1 = size_sll l"
      by (simp_all add: size_sll_def)
    moreover have "traverse h' (begin_it l') = Some (cs1 @ (p, x) # cs3)"
      using r' by (simp add: begin_it_def repr_traverse)
    moreover have "wf_list h' l'" using r' by (auto simp: wf_list_repr)
    ultimately show ?thesis using run gone
      by (simp add: Cons d end_it_def cong: list.case_cong)
  qed
qed

text \<open>
  Claim C3. With the end position \<^verbatim>\<open>erase_after(pos)\<close> throws \<^verbatim>\<open>std::out_of_range\<close>
  (the spec's InvalidPosition/EmptyRange), on every container, and the heap and the
  container are as before. Let \<open>pos\<close> refer to a node \<open>p\<close> of a well-formed container,
  with the nodes \<open>cs1\<close> before it and \<open>cs2\<close> after it. If \<open>p\<close> is the last node, the call
  throws \<^verbatim>\<open>std::out_of_range\<close> too and the heap and the container are as before. If
  \<open>p\<close> has a successor \<open>q\<close>, the call releases \<open>q\<close> and nothing else of the chain: the
  traversal visits the other nodes with their elements in the old order; \<open>p\<close> is the tail
  when \<open>q\<close> was, and the tail is as before otherwise; the size drops by 1; the iterator
  returned refers to the node now after \<open>p\<close>, the end position when \<open>q\<close> was last; the
  container stays well formed.
\<close>

theorem erase_after_spec:
  "erase_after end_it (h, l) = Some (Inl Out_of_range, (h, l)) \<and>
   (wf_list h l \<and> traverse h (begin_it l) = Some (cs1 @ (p, x) # cs2) \<longrightarrow>
    (case cs2 of
       [] \<Rightarrow> erase_after (Some p) (h, l) = Some (Inl Out_of_range, (h, l))
     | (q, y) # cs3 \<Rightarrow>
         (\<exists>h' l'.
            erase_after (Some p) (h, l) =
              Some (Inr (case cs3 of [] \<Rightarrow> end_it | c # _ \<Rightarrow> Some (fst c)), (h', l')) \<and>
            lookup h' q = None \<and>
            traverse h' (begin_it l') = Some (cs1 @ (p, x) # cs3) \<and>
            tail l' = (if tail l = Some q then Some p else tail l) \<and>
            size_sll l' + 1 = size_sll l \<and>
            wf_list h' l')))"
proof (intro conjI impI)
  show "erase_after end_it (h, l) = Some (Inl Out_of_range, (h, l))"
    by (simp add: end_it_def erase_after_end)
next
  assume "wf_list h l \<and> traverse h (begin_it l) = Some (cs1 @ (p, x) # cs2)"
  then have "wf_list h l" "traverse h (begin_it l) = Some (cs1 @ (p, x) # cs2)"
    by simp_all
  then show "case cs2 of
       [] \<Rightarrow> erase_after (Some p) (h, l) = Some (Inl Out_of_range, (h, l))
     | (q, y) # cs3 \<Rightarrow>
         (\<exists>h' l'.
            erase_after (Some p) (h, l) =
              Some (Inr (case cs3 of [] \<Rightarrow> end_it | c # _ \<Rightarrow> Some (fst c)), (h', l')) \<and>
            lookup h' q = None \<and>
            traverse h' (begin_it l') = Some (cs1 @ (p, x) # cs3) \<and>
            tail l' = (if tail l = Some q then Some p else tail l) \<and>
            size_sll l' + 1 = size_sll l \<and>
            wf_list h' l')"
    by (rule erase_after_on_node)
qed

text \<open>
  The theorem on \<^verbatim>\<open>[10, 20, 50]\<close>: \<^verbatim>\<open>erase_after(begin())\<close> leaves \<^verbatim>\<open>[10, 50]\<close>, and
  \<^verbatim>\<open>erase_after\<close> on the last node and on the end position throws.
\<close>

theorem erase_after_spec_witness:
  "wf_list [Some \<lparr>data = 10::int, nxt = Some 2\<rparr>, Some \<lparr>data = 50, nxt = None\<rparr>,
            Some \<lparr>data = 20, nxt = Some 1\<rparr>]
     \<lparr>head = Some 0, tail = Some 1, list_size = 3\<rparr> \<and>
   traverse [Some \<lparr>data = 10::int, nxt = Some 2\<rparr>, Some \<lparr>data = 50, nxt = None\<rparr>,
             Some \<lparr>data = 20, nxt = Some 1\<rparr>]
     (begin_it \<lparr>head = Some 0, tail = Some 1, list_size = 3\<rparr>) =
     Some [(0, 10), (2, 20), (1, 50)] \<and>
   (\<exists>h' l'.
      erase_after (Some 0)
        ([Some \<lparr>data = 10::int, nxt = Some 2\<rparr>, Some \<lparr>data = 50, nxt = None\<rparr>,
          Some \<lparr>data = 20, nxt = Some 1\<rparr>],
         \<lparr>head = Some 0, tail = Some 1, list_size = 3\<rparr>) = Some (Inr (Some 1), (h', l')) \<and>
      traverse h' (begin_it l') = Some [(0, 10), (1, 50)] \<and>
      size_sll l' = 2) \<and>
   erase_after (Some 1)
        ([Some \<lparr>data = 10::int, nxt = Some 2\<rparr>, Some \<lparr>data = 50, nxt = None\<rparr>,
          Some \<lparr>data = 20, nxt = Some 1\<rparr>],
         \<lparr>head = Some 0, tail = Some 1, list_size = 3\<rparr>) =
     Some (Inl Out_of_range,
        ([Some \<lparr>data = 10::int, nxt = Some 2\<rparr>, Some \<lparr>data = 50, nxt = None\<rparr>,
          Some \<lparr>data = 20, nxt = Some 1\<rparr>],
         \<lparr>head = Some 0, tail = Some 1, list_size = 3\<rparr>)) \<and>
   erase_after end_it
        ([Some \<lparr>data = 10::int, nxt = Some 2\<rparr>, Some \<lparr>data = 50, nxt = None\<rparr>,
          Some \<lparr>data = 20, nxt = Some 1\<rparr>],
         \<lparr>head = Some 0, tail = Some 1, list_size = 3\<rparr>) =
     Some (Inl Out_of_range,
        ([Some \<lparr>data = 10::int, nxt = Some 2\<rparr>, Some \<lparr>data = 50, nxt = None\<rparr>,
          Some \<lparr>data = 20, nxt = Some 1\<rparr>],
         \<lparr>head = Some 0, tail = Some 1, list_size = 3\<rparr>))"
proof -
  let ?h = "[Some \<lparr>data = 10::int, nxt = Some 2\<rparr>, Some \<lparr>data = 50, nxt = None\<rparr>,
             Some \<lparr>data = 20, nxt = Some 1\<rparr>]"
  let ?l = "\<lparr>head = Some 0, tail = Some 1, list_size = 3\<rparr>"
  have wf: "wf_list ?h ?l" by code_simp
  have tr1: "traverse ?h (begin_it ?l) = Some ([] @ (0, 10) # [(2, 20), (1, 50)])" by code_simp
  have tr2: "traverse ?h (begin_it ?l) = Some ([(0, 10), (2, 20)] @ (1, 50) # [])" by code_simp
  from erase_after_spec[where h = ?h and l = ?l and ?cs1.0 = "[]" and p = 0 and x = 10
      and ?cs2.0 = "[(2, 20), (1, 50)]"]
    erase_after_spec[where h = ?h and l = ?l and ?cs1.0 = "[(0, 10), (2, 20)]" and p = 1
      and x = 50 and ?cs2.0 = "[]"] wf tr1 tr2
  show ?thesis
    by (auto simp: size_sll_def)
qed

subsection \<open>Access and removal on an empty container\<close>

text \<open>
  Claim C4. On a well-formed container each of \<^verbatim>\<open>front()\<close>, \<^verbatim>\<open>back()\<close>,
  \<^verbatim>\<open>pop_front()\<close> and \<^verbatim>\<open>pop_back()\<close> throws \<^verbatim>\<open>std::out_of_range\<close> (the spec's
  EmptyContainer) if and only if the size is 0, and returns if and only if the size is not 0.
\<close>

theorem empty_container_errors:
  assumes "wf_list h l"
  shows "(throws (front (h, l)) Out_of_range \<longleftrightarrow> size_sll l = 0) \<and>
         (throws (back_sll (h, l)) Out_of_range \<longleftrightarrow> size_sll l = 0) \<and>
         (throws (pop_front (h, l)) Out_of_range \<longleftrightarrow> size_sll l = 0) \<and>
         (throws (pop_back (h, l)) Out_of_range \<longleftrightarrow> size_sll l = 0) \<and>
         (succeeds (front (h, l)) \<longleftrightarrow> size_sll l \<noteq> 0) \<and>
         (succeeds (back_sll (h, l)) \<longleftrightarrow> size_sll l \<noteq> 0) \<and>
         (succeeds (pop_front (h, l)) \<longleftrightarrow> size_sll l \<noteq> 0) \<and>
         (succeeds (pop_back (h, l)) \<longleftrightarrow> size_sll l \<noteq> 0)"
proof -
  from assms obtain cs where r: "repr h l cs" by (auto simp: wf_list_repr)
  show ?thesis
  proof (cases cs rule: rev_cases)
    case Nil
    with r have "head l = None" "tail l = None" "list_size l = 0"
      by (simp_all add: repr_def)
    then show ?thesis
      by (simp add: throws_def succeeds_def size_sll_def front_def back_sll_def
          pop_front_def pop_back_def)
  next
    case (snoc ds d)
    then have "cs \<noteq> []" by simp
    then obtain c es where cs: "cs = c # es" by (cases cs) auto
    from r snoc have sz: "list_size l \<noteq> 0" by (simp add: repr_def)
    from r cs have "front (h, l) = Some (Inr (snd c), (h, l))"
      by (simp add: front_repr)
    moreover from r snoc have "back_sll (h, l) = Some (Inr (snd d), (h, l))"
      by (simp add: back_repr)
    moreover from pop_front_repr[of h l c es] r cs
    obtain s1 where "pop_front (h, l) = Some (Inr (), s1)" by auto
    moreover from pop_back_repr[of h l ds d] r snoc
    obtain s2 where "pop_back (h, l) = Some (Inr (), s2)" by auto
    ultimately show ?thesis using sz
      by (simp add: throws_def succeeds_def size_sll_def)
  qed
qed

text \<open>The theorem on the empty container and on \<^verbatim>\<open>[10, 50]\<close>.\<close>

theorem empty_container_errors_witness:
  "wf_list ([] :: int heap) \<lparr>head = None, tail = None, list_size = 0\<rparr> \<and>
   throws (front ([] :: int heap, \<lparr>head = None, tail = None, list_size = 0\<rparr>)) Out_of_range \<and>
   throws (back_sll ([] :: int heap, \<lparr>head = None, tail = None, list_size = 0\<rparr>)) Out_of_range \<and>
   throws (pop_front ([] :: int heap, \<lparr>head = None, tail = None, list_size = 0\<rparr>)) Out_of_range \<and>
   throws (pop_back ([] :: int heap, \<lparr>head = None, tail = None, list_size = 0\<rparr>)) Out_of_range \<and>
   wf_list [Some \<lparr>data = 10::int, nxt = Some 1\<rparr>, Some \<lparr>data = 50, nxt = None\<rparr>]
     \<lparr>head = Some 0, tail = Some 1, list_size = 2\<rparr> \<and>
   succeeds (front ([Some \<lparr>data = 10::int, nxt = Some 1\<rparr>, Some \<lparr>data = 50, nxt = None\<rparr>],
     \<lparr>head = Some 0, tail = Some 1, list_size = 2\<rparr>)) \<and>
   succeeds (back_sll ([Some \<lparr>data = 10::int, nxt = Some 1\<rparr>, Some \<lparr>data = 50, nxt = None\<rparr>],
     \<lparr>head = Some 0, tail = Some 1, list_size = 2\<rparr>)) \<and>
   succeeds (pop_front ([Some \<lparr>data = 10::int, nxt = Some 1\<rparr>, Some \<lparr>data = 50, nxt = None\<rparr>],
     \<lparr>head = Some 0, tail = Some 1, list_size = 2\<rparr>)) \<and>
   succeeds (pop_back ([Some \<lparr>data = 10::int, nxt = Some 1\<rparr>, Some \<lparr>data = 50, nxt = None\<rparr>],
     \<lparr>head = Some 0, tail = Some 1, list_size = 2\<rparr>))"
proof -
  have wf0: "wf_list ([] :: int heap) \<lparr>head = None, tail = None, list_size = 0\<rparr>"
    by code_simp
  have wf2: "wf_list [Some \<lparr>data = 10::int, nxt = Some 1\<rparr>, Some \<lparr>data = 50, nxt = None\<rparr>]
     \<lparr>head = Some 0, tail = Some 1, list_size = 2\<rparr>"
    by code_simp
  from empty_container_errors[OF wf0] empty_container_errors[OF wf2] wf0 wf2 show ?thesis
    by (simp add: size_sll_def)
qed

subsection \<open>Reversal\<close>

text \<open>
  Claim C5. On a well-formed container \<^verbatim>\<open>reverse()\<close> returns, and the traversal then
  visits the same nodes with the same elements in the opposite order; the elements are the same
  multiset and the size is the same. With fewer than 2 elements nothing changes at all. With 2
  or more the former tail node is the head and the former head node is the tail, so
  \<^verbatim>\<open>front()\<close> is the former \<^verbatim>\<open>back()\<close> and \<^verbatim>\<open>back()\<close> the former \<^verbatim>\<open>front()\<close>. A
  second \<^verbatim>\<open>reverse()\<close> returns too and restores the original order.
\<close>

theorem reverse_spec:
  assumes "wf_list h l" and "traverse h (begin_it l) = Some cs"
  shows "\<exists>h' l'.
    reverse (h, l) = Some (h', l') \<and>
    traverse h' (begin_it l') = Some (rev cs) \<and>
    (\<exists>xs ys. elements h l = Some xs \<and> elements h' l' = Some ys \<and>
       ys = rev xs \<and> mset ys = mset xs) \<and>
    size_sll l' = size_sll l \<and>
    wf_list h' l' \<and>
    (if size_sll l < 2 then (h', l') = (h, l)
     else head l' = tail l \<and> tail l' = head l \<and>
       (\<exists>u v. back_sll (h, l) = Some (Inr u, (h, l)) \<and> front (h', l') = Some (Inr u, (h', l')) \<and>
              front (h, l) = Some (Inr v, (h, l)) \<and> back_sll (h', l') = Some (Inr v, (h', l')))) \<and>
    (\<exists>h'' l''. reverse (h', l') = Some (h'', l'') \<and>
       traverse h'' (begin_it l'') = Some cs \<and> size_sll l'' = size_sll l)"
proof -
  from assms have r: "repr h l cs"
    by (simp add: wf_list_traverse begin_it_def)
  from reverse_repr[OF r] obtain h' l' where
    run: "reverse (h, l) = Some (h', l')" and r': "repr h' l' (rev cs)"
    by blast
  from reverse_repr[OF r'] obtain h'' l'' where
    run': "reverse (h', l') = Some (h'', l'')" and r'': "repr h'' l'' cs"
    by auto
  have tr': "traverse h' (begin_it l') = Some (rev cs)"
    using r' by (simp add: begin_it_def repr_traverse)
  have el: "elements h l = Some (map snd cs)" "elements h' l' = Some (rev (map snd cs))"
    using r r' by (simp_all add: repr_elements rev_map)
  have sz: "size_sll l' = size_sll l" "size_sll l'' = size_sll l"
    using r r' r'' by (simp_all add: repr_def size_sll_def)
  have wf': "wf_list h' l'" using r' by (auto simp: wf_list_repr)
  have small: "size_sll l < 2 \<Longrightarrow> (h', l') = (h, l)"
    using run by (simp add: reverse_small size_sll_def)
  have large: "head l' = tail l \<and> tail l' = head l \<and>
       (\<exists>u v. back_sll (h, l) = Some (Inr u, (h, l)) \<and> front (h', l') = Some (Inr u, (h', l')) \<and>
              front (h, l) = Some (Inr v, (h, l)) \<and> back_sll (h', l') = Some (Inr v, (h', l')))"
    if "\<not> size_sll l < 2"
  proof -
    from that r have "cs \<noteq> []" by (auto simp: repr_def size_sll_def)
    then obtain c ds where cs1: "cs = c # ds" by (cases cs) auto
    from \<open>cs \<noteq> []\<close> obtain d es where cs2: "cs = es @ [d]" by (cases cs rule: rev_cases) auto
    note cs = cs1 cs2
    from r cs(1) have f: "front (h, l) = Some (Inr (snd c), (h, l))"
      by (simp add: front_repr)
    from r cs(2) have b: "back_sll (h, l) = Some (Inr (snd d), (h, l))"
      by (simp add: back_repr)
    from r' cs(2) have f': "front (h', l') = Some (Inr (snd d), (h', l'))"
      by (simp add: front_repr)
    from r' cs(1) have b': "back_sll (h', l') = Some (Inr (snd c), (h', l'))"
      using back_repr[of h' l' "rev ds" c] by simp
    from r cs(1) have "head l = Some (fst c)" by (simp add: repr_def)
    moreover from r' cs(1) have "tail l' = Some (fst c)" by (simp add: repr_def)
    moreover from r cs(2) have "tail l = Some (fst d)" by (simp add: repr_def)
    moreover from r' cs(2) have "head l' = Some (fst d)" by (simp add: repr_def)
    ultimately show ?thesis using f b f' b' by simp
  qed
  have "traverse h'' (begin_it l'') = Some cs"
    using r'' by (simp add: begin_it_def repr_traverse)
  moreover have "if size_sll l < 2 then (h', l') = (h, l)
     else head l' = tail l \<and> tail l' = head l \<and>
       (\<exists>u v. back_sll (h, l) = Some (Inr u, (h, l)) \<and> front (h', l') = Some (Inr u, (h', l')) \<and>
              front (h, l) = Some (Inr v, (h, l)) \<and> back_sll (h', l') = Some (Inr v, (h', l')))"
    using small large by (cases "size_sll l < 2") simp_all
  ultimately show ?thesis using run run' tr' el sz wf'
    by (intro exI[of _ h'] exI[of _ l']) (simp split del: if_split)
qed

text \<open>The theorem on \<^verbatim>\<open>[10, 20, 30, 60]\<close>, which \<^verbatim>\<open>reverse()\<close> turns into \<^verbatim>\<open>[60, 30, 20, 10]\<close>.\<close>

theorem reverse_spec_witness:
  "wf_list [Some \<lparr>data = 10::int, nxt = Some 1\<rparr>, Some \<lparr>data = 20, nxt = Some 2\<rparr>,
            Some \<lparr>data = 30, nxt = Some 3\<rparr>, Some \<lparr>data = 60, nxt = None\<rparr>]
     \<lparr>head = Some 0, tail = Some 3, list_size = 4\<rparr> \<and>
   traverse [Some \<lparr>data = 10::int, nxt = Some 1\<rparr>, Some \<lparr>data = 20, nxt = Some 2\<rparr>,
             Some \<lparr>data = 30, nxt = Some 3\<rparr>, Some \<lparr>data = 60, nxt = None\<rparr>]
     (begin_it \<lparr>head = Some 0, tail = Some 3, list_size = 4\<rparr>) =
     Some [(0, 10), (1, 20), (2, 30), (3, 60)] \<and>
   (\<exists>h' l'.
      reverse ([Some \<lparr>data = 10::int, nxt = Some 1\<rparr>, Some \<lparr>data = 20, nxt = Some 2\<rparr>,
                Some \<lparr>data = 30, nxt = Some 3\<rparr>, Some \<lparr>data = 60, nxt = None\<rparr>],
               \<lparr>head = Some 0, tail = Some 3, list_size = 4\<rparr>) = Some (h', l') \<and>
      elements h' l' = Some [60, 30, 20, 10] \<and>
      head l' = Some 3 \<and> tail l' = Some 0 \<and>
      (\<exists>h'' l''. reverse (h', l') = Some (h'', l'') \<and>
         traverse h'' (begin_it l'') = Some [(0, 10), (1, 20), (2, 30), (3, 60)]))"
proof -
  let ?h = "[Some \<lparr>data = 10::int, nxt = Some 1\<rparr>, Some \<lparr>data = 20, nxt = Some 2\<rparr>,
             Some \<lparr>data = 30, nxt = Some 3\<rparr>, Some \<lparr>data = 60, nxt = None\<rparr>]"
  let ?l = "\<lparr>head = Some 0, tail = Some 3, list_size = 4\<rparr>"
  have wf: "wf_list ?h ?l" by code_simp
  have tr: "traverse ?h (begin_it ?l) = Some [(0, 10), (1, 20), (2, 30), (3, 60)]"
    by code_simp
  have el: "elements ?h ?l = Some [10, 20, 30, 60]" by code_simp
  from reverse_spec[OF wf tr] obtain h' l' where
    "reverse (?h, ?l) = Some (h', l')"
    "\<exists>xs ys. elements ?h ?l = Some xs \<and> elements h' l' = Some ys \<and> ys = rev xs \<and> mset ys = mset xs"
    "if size_sll ?l < 2 then (h', l') = (?h, ?l)
     else head l' = tail ?l \<and> tail l' = head ?l \<and>
       (\<exists>u v. back_sll (?h, ?l) = Some (Inr u, (?h, ?l)) \<and> front (h', l') = Some (Inr u, (h', l')) \<and>
              front (?h, ?l) = Some (Inr v, (?h, ?l)) \<and> back_sll (h', l') = Some (Inr v, (h', l')))"
    "\<exists>h'' l''. reverse (h', l') = Some (h'', l'') \<and>
       traverse h'' (begin_it l'') = Some [(0, 10), (1, 20), (2, 30), (3, 60)] \<and>
       size_sll l'' = size_sll ?l"
    by blast
  with wf tr el show ?thesis
    by (auto simp: size_sll_def)
qed

subsection \<open>Pushing and popping at the front\<close>

text \<open>
  Claim C8. On a well-formed container \<^verbatim>\<open>push_front(x)\<close> followed by \<^verbatim>\<open>pop_front()\<close>
  returns, and leaves the head, the tail and the size as they were; the traversal visits the
  same nodes with the same elements in the same order as before the two calls.
\<close>

theorem push_pop_front_inverse:
  assumes "wf_list h l"
  shows "\<exists>h1 l1 h2.
    push_front x (h, l) = Some (h1, l1) \<and>
    pop_front (h1, l1) = Some (Inr (), (h2, l)) \<and>
    traverse h2 (begin_it l) = traverse h (begin_it l) \<and>
    elements h2 l = elements h l \<and>
    wf_list h2 l"
proof -
  from assms obtain cs where r: "repr h l cs" by (auto simp: wf_list_repr)
  from push_front_repr[OF r, of x] obtain h1 l1 where
    push: "push_front x (h, l) = Some (h1, l1)" and r1: "repr h1 l1 ((length h, x) # cs)"
    by blast
  from pop_front_repr[OF r1] obtain h2 l2 where
    pop: "pop_front (h1, l1) = Some (Inr (), (h2, l2))" and r2: "repr h2 l2 cs"
    by blast
  from push have l1: "l1 = l\<lparr>head := Some (length h),
      tail := (if head l = None then Some (length h) else tail l),
      list_size := list_size l + 1\<rparr>"
    and h1: "h1 = h @ [Some \<lparr>data = x, nxt = head l\<rparr>]"
    by (simp_all add: push_front_eq)
  have "pop_front (h1, l1) = Some (Inr (), (h1[length h := None],
      l1\<lparr>head := head l, tail := (if head l = None then None else tail l1),
         list_size := list_size l1 - 1\<rparr>))"
    using pop_front_nonempty[of l1 "length h" h1 "\<lparr>data = x, nxt = head l\<rparr>"]
    by (simp add: l1 h1 lookup_append)
  with pop have "l2 = l1\<lparr>head := head l, tail := (if head l = None then None else tail l1),
         list_size := list_size l1 - 1\<rparr>"
    by simp
  moreover have "head l = None \<Longrightarrow> tail l = None"
    using repr_empty_iff[OF r] by simp
  ultimately have "l2 = l" by (simp add: l1)
  with push pop r r2 show ?thesis
    by (auto simp: begin_it_def repr_traverse repr_elements wf_list_repr)
qed

text \<open>The theorem on \<^verbatim>\<open>[10, 50]\<close> with \<^verbatim>\<open>push_front(5)\<close>.\<close>

theorem push_pop_front_inverse_witness:
  "wf_list [Some \<lparr>data = 10::int, nxt = Some 1\<rparr>, Some \<lparr>data = 50, nxt = None\<rparr>]
     \<lparr>head = Some 0, tail = Some 1, list_size = 2\<rparr> \<and>
   (\<exists>h1 l1 h2.
      push_front 5 ([Some \<lparr>data = 10::int, nxt = Some 1\<rparr>, Some \<lparr>data = 50, nxt = None\<rparr>],
        \<lparr>head = Some 0, tail = Some 1, list_size = 2\<rparr>) = Some (h1, l1) \<and>
      pop_front (h1, l1) = Some (Inr (), (h2, \<lparr>head = Some 0, tail = Some 1, list_size = 2\<rparr>)) \<and>
      elements h2 \<lparr>head = Some 0, tail = Some 1, list_size = 2\<rparr> = Some [10, 50])"
proof -
  let ?h = "[Some \<lparr>data = 10::int, nxt = Some 1\<rparr>, Some \<lparr>data = 50, nxt = None\<rparr>]"
  let ?l = "\<lparr>head = Some 0, tail = Some 1, list_size = 2\<rparr>"
  have wf: "wf_list ?h ?l" by code_simp
  have el: "elements ?h ?l = Some [10, 50]" by code_simp
  from push_pop_front_inverse[OF wf, of 5] wf el show ?thesis
    by auto
qed

subsection \<open>Comparisons\<close>

lemma std_equal_chains:
  assumes "path h p cs None" and "path h q ds None" and "length cs = length ds"
  shows "std_equal h p None q = Some (map snd cs = map snd ds)"
  using assms
proof (induction cs arbitrary: p q ds)
  case Nil
  then show ?case by (subst std_equal.simps) simp
next
  case (Cons c cs)
  then obtain d es where ds: "ds = d # es" by (cases ds) auto
  from Cons.prems(1) obtain n where n: "p = Some (fst c)" "lookup h (fst c) = Some n"
    "data n = snd c" "path h (nxt n) cs None"
    by (auto split: option.splits)
  from Cons.prems(2) ds obtain m where m: "q = Some (fst d)" "lookup h (fst d) = Some m"
    "data m = snd d" "path h (nxt m) es None"
    by (auto split: option.splits)
  from Cons.prems(3) ds have "length cs = length es" by simp
  from Cons.IH[OF n(4) m(4) this] n m ds show ?case
    by (subst std_equal.simps) auto
qed

lemma lexicographical_compare_chains:
  fixes h :: "('a::linorder) heap"
  assumes "path h p cs None" and "path h q ds None"
  shows "lexicographical_compare h p None q None = Some (map snd cs < map snd ds)"
  using assms
proof (induction cs arbitrary: p q ds)
  case Nil
  then show ?case
    by (subst lexicographical_compare.simps) (cases ds; auto)
next
  case (Cons c cs)
  from Cons.prems(1) obtain n where n: "p = Some (fst c)" "lookup h (fst c) = Some n"
    "data n = snd c" "path h (nxt n) cs None"
    by (auto split: option.splits)
  show ?case
  proof (cases ds)
    case Nil
    with Cons.prems(2) n show ?thesis
      by (subst lexicographical_compare.simps) simp
  next
    case (Cons d es)
    with Cons.prems(2) obtain m where m: "q = Some (fst d)" "lookup h (fst d) = Some m"
      "data m = snd d" "path h (nxt m) es None"
      by (auto split: option.splits)
    from Cons.IH[OF n(4) m(4)] n m Cons show ?thesis
      by (subst lexicographical_compare.simps) auto
  qed
qed

lemma op_eq_repr:
  assumes "repr h a cs" and "repr h b ds"
  shows "op_eq h a b = Some (map snd cs = map snd ds)"
proof (cases "length cs = length ds")
  case True
  with assms show ?thesis
    by (simp add: op_eq_def size_sll_def begin_it_def end_it_def repr_def std_equal_chains)
next
  case False
  then have "map snd cs \<noteq> map snd ds" by (auto dest: map_eq_imp_length_eq)
  with False assms show ?thesis
    by (simp add: op_eq_def size_sll_def repr_def)
qed

lemma op_less_repr:
  fixes h :: "('a::linorder) heap"
  assumes "repr h a cs" and "repr h b ds"
  shows "op_less h a b = Some (map snd cs < map snd ds)"
  using assms
  by (simp add: op_less_def begin_it_def end_it_def repr_def lexicographical_compare_chains)

text \<open>
  Claim C7. For two well-formed containers over a linearly ordered element type, with the
  element sequences \<open>xs\<close> and \<open>ys\<close>: \<^verbatim>\<open>a == b\<close> is true iff the sizes are equal and the
  elements are equal position by position; \<^verbatim>\<open>a < b\<close> is the lexicographic order of the
  sequences, in which a proper prefix is less than the longer sequence; and exactly one of
  \<^verbatim>\<open>a < b\<close>, \<^verbatim>\<open>a == b\<close>, \<^verbatim>\<open>b < a\<close> is true.
\<close>

theorem comparison_trichotomy:
  fixes h :: "('a::linorder) heap"
  assumes "wf_list h a" and "wf_list h b"
  shows "\<exists>xs ys.
    elements h a = Some xs \<and> elements h b = Some ys \<and>
    op_eq h a b = Some (size_sll a = size_sll b \<and> (\<forall>i < size_sll a. xs ! i = ys ! i)) \<and>
    op_less h a b = Some ((xs, ys) \<in> lexord {(u, v). u < v}) \<and>
    op_less h b a = Some ((ys, xs) \<in> lexord {(u, v). u < v}) \<and>
    ((op_less h a b = Some True \<and> op_eq h a b = Some False \<and> op_less h b a = Some False) \<or>
     (op_less h a b = Some False \<and> op_eq h a b = Some True \<and> op_less h b a = Some False) \<or>
     (op_less h a b = Some False \<and> op_eq h a b = Some False \<and> op_less h b a = Some True))"
proof -
  from assms obtain cs ds where r: "repr h a cs" "repr h b ds"
    by (auto simp: wf_list_repr)
  let ?xs = "map snd cs" and ?ys = "map snd ds"
  have sz: "size_sll a = length ?xs" "size_sll b = length ?ys"
    using r by (simp_all add: repr_def size_sll_def)
  have eq: "op_eq h a b = Some (?xs = ?ys)" using r by (rule op_eq_repr)
  have lt: "op_less h a b = Some (?xs < ?ys)" "op_less h b a = Some (?ys < ?xs)"
    using r by (simp_all add: op_less_repr)
  have "(?xs = ?ys) = (size_sll a = size_sll b \<and> (\<forall>i < size_sll a. ?xs ! i = ?ys ! i))"
    unfolding sz by (rule list_eq_iff_nth_eq)
  with eq have eq': "op_eq h a b =
      Some (size_sll a = size_sll b \<and> (\<forall>i < size_sll a. ?xs ! i = ?ys ! i))"
    by simp
  have lt': "op_less h a b = Some ((?xs, ?ys) \<in> lexord {(u, v). u < v})"
    "op_less h b a = Some ((?ys, ?xs) \<in> lexord {(u, v). u < v})"
    using lt by (simp_all add: list_less_def)
  have "(?xs < ?ys \<and> ?xs \<noteq> ?ys \<and> \<not> ?ys < ?xs) \<or>
        (\<not> ?xs < ?ys \<and> ?xs = ?ys \<and> \<not> ?ys < ?xs) \<or>
        (\<not> ?xs < ?ys \<and> ?xs \<noteq> ?ys \<and> ?ys < ?xs)"
    by (rule linorder_cases[of ?xs ?ys]) auto
  then have "(op_less h a b = Some True \<and> op_eq h a b = Some False \<and> op_less h b a = Some False) \<or>
     (op_less h a b = Some False \<and> op_eq h a b = Some True \<and> op_less h b a = Some False) \<or>
     (op_less h a b = Some False \<and> op_eq h a b = Some False \<and> op_less h b a = Some True)"
    unfolding eq lt by simp
  with r eq' lt' show ?thesis
    by (intro exI[of _ ?xs] exI[of _ ?ys]) (simp add: repr_elements)
qed

text \<open>
  The theorem on \<^verbatim>\<open>[1, 2, 3]\<close> and \<^verbatim>\<open>[1, 2, 4]\<close> in one heap: the first is less than the
  second, they are not equal, and the second is not less than the first.
\<close>

theorem comparison_trichotomy_witness:
  "wf_list [Some \<lparr>data = 1::int, nxt = Some 1\<rparr>, Some \<lparr>data = 2, nxt = Some 2\<rparr>,
            Some \<lparr>data = 3, nxt = None\<rparr>, Some \<lparr>data = 1, nxt = Some 4\<rparr>,
            Some \<lparr>data = 2, nxt = Some 5\<rparr>, Some \<lparr>data = 4, nxt = None\<rparr>]
     \<lparr>head = Some 0, tail = Some 2, list_size = 3\<rparr> \<and>
   wf_list [Some \<lparr>data = 1::int, nxt = Some 1\<rparr>, Some \<lparr>data = 2, nxt = Some 2\<rparr>,
            Some \<lparr>data = 3, nxt = None\<rparr>, Some \<lparr>data = 1, nxt = Some 4\<rparr>,
            Some \<lparr>data = 2, nxt = Some 5\<rparr>, Some \<lparr>data = 4, nxt = None\<rparr>]
     \<lparr>head = Some 3, tail = Some 5, list_size = 3\<rparr> \<and>
   op_less [Some \<lparr>data = 1::int, nxt = Some 1\<rparr>, Some \<lparr>data = 2, nxt = Some 2\<rparr>,
            Some \<lparr>data = 3, nxt = None\<rparr>, Some \<lparr>data = 1, nxt = Some 4\<rparr>,
            Some \<lparr>data = 2, nxt = Some 5\<rparr>, Some \<lparr>data = 4, nxt = None\<rparr>]
     \<lparr>head = Some 0, tail = Some 2, list_size = 3\<rparr>
     \<lparr>head = Some 3, tail = Some 5, list_size = 3\<rparr> = Some True \<and>
   op_eq [Some \<lparr>data = 1::int, nxt = Some 1\<rparr>, Some \<lparr>data = 2, nxt = Some 2\<rparr>,
            Some \<lparr>data = 3, nxt = None\<rparr>, Some \<lparr>data = 1, nxt = Some 4\<rparr>,
            Some \<lparr>data = 2, nxt = Some 5\<rparr>, Some \<lparr>data = 4, nxt = None\<rparr>]
     \<lparr>head = Some 0, tail = Some 2, list_size = 3\<rparr>
     \<lparr>head = Some 3, tail = Some 5, list_size = 3\<rparr> = Some False \<and>
   op_less [Some \<lparr>data = 1::int, nxt = Some 1\<rparr>, Some \<lparr>data = 2, nxt = Some 2\<rparr>,
            Some \<lparr>data = 3, nxt = None\<rparr>, Some \<lparr>data = 1, nxt = Some 4\<rparr>,
            Some \<lparr>data = 2, nxt = Some 5\<rparr>, Some \<lparr>data = 4, nxt = None\<rparr>]
     \<lparr>head = Some 3, tail = Some 5, list_size = 3\<rparr>
     \<lparr>head = Some 0, tail = Some 2, list_size = 3\<rparr> = Some False"
proof -
  let ?h = "[Some \<lparr>data = 1::int, nxt = Some 1\<rparr>, Some \<lparr>data = 2, nxt = Some 2\<rparr>,
            Some \<lparr>data = 3, nxt = None\<rparr>, Some \<lparr>data = 1, nxt = Some 4\<rparr>,
            Some \<lparr>data = 2, nxt = Some 5\<rparr>, Some \<lparr>data = 4, nxt = None\<rparr>]"
  let ?a = "\<lparr>head = Some 0, tail = Some 2, list_size = 3\<rparr>"
  let ?b = "\<lparr>head = Some 3, tail = Some 5, list_size = 3\<rparr>"
  have wf: "wf_list ?h ?a" "wf_list ?h ?b" by code_simp+
  have lt: "op_less ?h ?a ?b = Some True" by code_simp
  from comparison_trichotomy[OF wf] wf lt show ?thesis
    by auto
qed

subsection \<open>Release of the chain\<close>

lemma release_trace_chain:
  assumes "path h p cs None"
  shows "release_trace h p = Some (rev (map fst cs), length cs)"
proof (cases p)
  case None
  with assms show ?thesis by (simp add: release_trace_def)
next
  case (Some a)
  with assms delete_node_chain[of h a cs] show ?thesis
    by (auto simp: release_trace_def)
qed

lemma repr_any_length: "\<exists>(h :: unit heap) l cs. repr h l cs \<and> length cs = n"
proof (induction n)
  case 0
  have "repr ([] :: unit heap) \<lparr>head = None, tail = None, list_size = 0\<rparr> []"
    by (rule repr_empty)
  then show ?case by force
next
  case (Suc n)
  then obtain h :: "unit heap" and l cs where r: "repr h l cs" "length cs = n" by blast
  from push_front_repr[OF r(1), of "()"] obtain h' l' where
    "repr h' l' ((length h, ()) # cs)" by blast
  with r(2) show ?case by force
qed

text \<open>
  What \<^verbatim>\<open>clear()\<close> and the destructor do to the heap, in this model, which puts no bound on
  the call stack: the release of the head is the trace of \<open>release_trace\<close>, the nodes of
  the chain, each once, the last node first, and no other cell; for a chain of \<open>n\<close> nodes
  the destructor calls nest \<open>n\<close> deep.
\<close>

lemma clear_release_trace:
  assumes "wf_list (mem w) l" and "traverse (mem w) (begin_it l) = Some cs"
    and "map_of (objs w) this = Some l"
  shows "\<exists>h'.
    clear (mem w, l) = Some (h', \<lparr>head = None, tail = None, list_size = 0\<rparr>) \<and>
    destroy this w = Some \<lparr>mem = h', objs = AList.delete this (objs w)\<rparr> \<and>
    release_trace (mem w) (head l) = Some (rev (map fst cs), length cs) \<and>
    distinct (rev (map fst cs)) \<and>
    length h' = length (mem w) \<and>
    (\<forall>a. lookup h' a = (if a \<in> set (map fst cs) then None else lookup (mem w) a))"
proof -
  from assms(1,2) have r: "repr (mem w) l cs"
    by (simp add: wf_list_traverse begin_it_def)
  then have p: "path (mem w) (head l) cs None" by (simp add: repr_def)
  from dispose_chain[OF p] obtain h' where h':
    "dispose (mem w) (head l) = Some h'" "length h' = length (mem w)"
    "\<forall>b. lookup h' b = (if b \<in> fst ` set cs then None else lookup (mem w) b)"
    by blast
  have "clear (mem w, l) = Some (h', \<lparr>head = None, tail = None, list_size = 0\<rparr>)"
    using h'(1) by (simp add: clear_def reset_head_def)
  moreover have "destroy this w = Some \<lparr>mem = h', objs = AList.delete this (objs w)\<rparr>"
    using h'(1) assms(3) by (simp add: destroy_def)
  moreover have "distinct (rev (map fst cs))"
    using chain_distinct[OF p] by simp
  ultimately show ?thesis using h'(2,3) release_trace_chain[OF p]
    by auto
qed

text \<open>No bound holds for the depth of the release on all well-formed containers.\<close>

lemma release_depth_unbounded:
  "\<not> (\<exists>B. \<forall>(h :: unit heap) l. wf_list h l \<longrightarrow>
        (\<exists>t d. release_trace h (head l) = Some (t, d) \<and> d \<le> B))"
proof
  assume "\<exists>B. \<forall>(h :: unit heap) l. wf_list h l \<longrightarrow>
        (\<exists>t d. release_trace h (head l) = Some (t, d) \<and> d \<le> B)"
  then obtain B where B: "\<And>(h :: unit heap) l. wf_list h l \<Longrightarrow>
        \<exists>t d. release_trace h (head l) = Some (t, d) \<and> d \<le> B"
    by blast
  obtain h :: "unit heap" and l cs where r: "repr h l cs" "length cs = Suc B"
    using repr_any_length[of "Suc B"] by blast
  then have "wf_list h l" by (auto simp: wf_list_repr)
  from B[OF this] obtain t d where "release_trace h (head l) = Some (t, d)" "d \<le> B"
    by blast
  moreover from r(1) have "path h (head l) cs None" by (simp add: repr_def)
  then have "release_trace h (head l) = Some (rev (map fst cs), Suc B)"
    using r(2) by (simp add: release_trace_chain)
  ultimately show False by simp
qed


section \<open>Worlds of containers\<close>

subsection \<open>The invariant over the store\<close>

lemma world_inv_iff:
  "world_inv w \<longleftrightarrow> distinct (map fst (objs w)) \<and> store_inv (mem w) (map_of (objs w))"
proof (cases "distinct (map fst (objs w))")
  case True
  have A: "(\<forall>(i, l) \<in> set (objs w). P i l) \<longleftrightarrow> (\<forall>i l. map_of (objs w) i = Some l \<longrightarrow> P i l)"
    for P using True by auto
  show ?thesis
    unfolding world_inv_def store_inv_def A using True by blast
next
  case False
  then show ?thesis by (simp add: world_inv_def)
qed

lemma store_inv_wf: "store_inv h m \<Longrightarrow> m i = Some l \<Longrightarrow> wf_list h l"
  by (auto simp: store_inv_def)

lemma store_inv_disjoint:
  "store_inv h m \<Longrightarrow> m i = Some li \<Longrightarrow> m j = Some lj \<Longrightarrow> i \<noteq> j \<Longrightarrow>
   repr h li cs \<Longrightarrow> repr h lj ds \<Longrightarrow> fst ` set cs \<inter> fst ` set ds = {}"
  unfolding store_inv_def by (metis repr_nodes_of set_map)

lemma store_invI:
  assumes "\<And>i l. m i = Some l \<Longrightarrow> \<exists>cs. repr h l cs"
    and "\<And>i j li lj cs ds. i \<noteq> j \<Longrightarrow> m i = Some li \<Longrightarrow> m j = Some lj \<Longrightarrow>
          repr h li cs \<Longrightarrow> repr h lj ds \<Longrightarrow> fst ` set cs \<inter> fst ` set ds = {}"
  shows "store_inv h m"
  unfolding store_inv_def
proof (intro conjI allI impI)
  fix i l assume "m i = Some l"
  then show "wf_list h l" using assms(1) by (simp add: wf_list_repr)
next
  fix i j li lj assume ij: "i \<noteq> j" "m i = Some li" "m j = Some lj"
  from assms(1)[OF ij(2)] assms(1)[OF ij(3)] obtain cs ds where
    r: "repr h li cs" "repr h lj ds" by blast
  from assms(2)[OF ij r] r show "set (nodes_of h li) \<inter> set (nodes_of h lj) = {}"
    by (simp add: repr_nodes_of)
qed

lemma repr_less: "repr h l cs \<Longrightarrow> a \<in> fst ` set cs \<Longrightarrow> a < length h"
  unfolding repr_def by (blast intro: path_less)

text \<open>A step that is local to one container keeps the invariant of the whole store.\<close>

lemma store_inv_local_step:
  assumes inv: "store_inv h m" and obj: "m this = Some l" and step: "local_step h l h' l'"
  shows "store_inv h' (m(this \<mapsto> l'))"
proof -
  from step obtain cs cs' where r: "repr h l cs" and r': "repr h' l' cs'"
    and fr: "frame h h' (fst ` set cs)"
    and sub: "fst ` set cs' \<subseteq> fst ` set cs \<union> {a. length h \<le> a}"
    by (auto simp: local_step_def)
  have other: "repr h' lj ds \<and> fst ` set ds \<inter> fst ` set cs' = {}"
    if "j \<noteq> this" "m j = Some lj" "repr h lj ds" for j lj ds
  proof -
    from store_inv_disjoint[OF inv that(2) obj that(1) that(3) r]
    have d: "fst ` set ds \<inter> fst ` set cs = {}" .
    have "repr h' lj ds" using fr that(3) d by (rule frame_repr)
    moreover have "fst ` set ds \<inter> fst ` set cs' = {}"
    proof (rule ccontr)
      assume "fst ` set ds \<inter> fst ` set cs' \<noteq> {}"
      then obtain a where a: "a \<in> fst ` set ds" "a \<in> fst ` set cs'" by blast
      from a(1) d have "a \<notin> fst ` set cs" by blast
      with a(2) sub have "length h \<le> a" by blast
      with repr_less[OF that(3) a(1)] show False by simp
    qed
    ultimately show ?thesis ..
  qed
  have old: "\<exists>ds. repr h lj ds" if "m j = Some lj" for j lj
    using store_inv_wf[OF inv that] by (simp add: wf_list_repr)
  show ?thesis
  proof (rule store_invI)
    fix i li assume i: "(m(this \<mapsto> l')) i = Some li"
    show "\<exists>cs. repr h' li cs"
    proof (cases "i = this")
      case True
      with i r' show ?thesis by auto
    next
      case False
      with i have mi: "m i = Some li" by simp
      from old[OF mi] obtain ds where "repr h li ds" ..
      from other[OF False mi this] show ?thesis by blast
    qed
  next
    fix i j li lj ds es
    assume ij: "i \<noteq> j" "(m(this \<mapsto> l')) i = Some li" "(m(this \<mapsto> l')) j = Some lj"
      and rs: "repr h' li ds" "repr h' lj es"
    have one: "fst ` set ds' \<inter> fst ` set es' = {}"
      if "j' \<noteq> this" "m j' = Some lj'" "repr h' l' ds'" "repr h' lj' es'" for j' lj' ds' es'
    proof -
      from old[OF that(2)] obtain es0 where e: "repr h lj' es0" ..
      from other[OF that(1,2) e] have "repr h' lj' es0" "fst ` set es0 \<inter> fst ` set cs' = {}"
        by simp_all
      moreover from this(1) that(4) have "es' = es0" by (rule repr_unique[rotated])
      moreover from r' that(3) have "ds' = cs'" by (rule repr_unique[rotated])
      ultimately show ?thesis by blast
    qed
    consider "i = this" | "j = this" | "i \<noteq> this" "j \<noteq> this" by blast
    then show "fst ` set ds \<inter> fst ` set es = {}"
    proof cases
      case 1
      with ij have j: "j \<noteq> this" "m j = Some lj" "li = l'" by auto
      from one[OF j(1,2) rs(1)[unfolded j(3)] rs(2)] show ?thesis .
    next
      case 2
      with ij have i: "i \<noteq> this" "m i = Some li" "lj = l'" by auto
      from one[OF i(1,2) rs(2)[unfolded i(3)] rs(1)] show ?thesis by blast
    next
      case 3
      with ij have m: "m i = Some li" "m j = Some lj" by auto
      from old[OF m(1)] old[OF m(2)] obtain ds' es' where
        o: "repr h li ds'" "repr h lj es'" by blast
      from other[OF 3(1) m(1) o(1)] rs(1) have "ds = ds'" by (blast dest: repr_unique)
      moreover from other[OF 3(2) m(2) o(2)] rs(2) have "es = es'" by (blast dest: repr_unique)
      ultimately show ?thesis
        using store_inv_disjoint[OF inv m ij(1) o] by simp
    qed
  qed
qed

lemma local_step_refl: "wf_list h l \<Longrightarrow> local_step h l h l"
  by (auto simp: local_step_def wf_list_repr)

lemma local_stepI:
  "repr h l cs \<Longrightarrow> repr h' l' cs' \<Longrightarrow> frame h h' A \<Longrightarrow> A \<subseteq> fst ` set cs \<Longrightarrow>
   fst ` set cs' \<subseteq> fst ` set cs \<union> {a. length h \<le> a} \<Longrightarrow> local_step h l h' l'"
  unfolding local_step_def by (blast intro: frame_mono)

lemma emplace_front_eq: "emplace_front = push_front"
  by (simp add: fun_eq_iff emplace_front_def push_front_def)

lemma emplace_back_eq: "emplace_back = push_back"
  by (simp add: fun_eq_iff emplace_back_def push_back_def)

lemma emplace_after_eq: "emplace_after = insert_after"
  by (simp add: fun_eq_iff emplace_after_def insert_after_def)

lemma push_front_local:
  assumes "wf_list h l"
  shows "\<exists>h' l'. push_front v (h, l) = Some (h', l') \<and> local_step h l h' l'"
proof -
  from assms obtain cs where r: "repr h l cs" by (auto simp: wf_list_repr)
  from push_front_repr[OF r, of v] obtain h' l' where
    "push_front v (h, l) = Some (h', l')" "repr h' l' ((length h, v) # cs)" "frame h h' {}"
    by blast
  with r show ?thesis
    by (auto intro!: local_stepI[where A = "{}"])
qed

lemma push_back_local:
  assumes "wf_list h l"
  shows "\<exists>h' l'. push_back v (h, l) = Some (h', l') \<and> local_step h l h' l'"
proof -
  from assms obtain cs where r: "repr h l cs" by (auto simp: wf_list_repr)
  from push_back_repr[OF r, of v] obtain h' l' where
    "push_back v (h, l) = Some (h', l')" "repr h' l' (cs @ [(length h, v)])"
    "frame h h' (fst ` set cs)"
    by blast
  with r show ?thesis
    by (auto intro!: local_stepI[where A = "fst ` set cs"])
qed

lemma pop_front_local:
  assumes "wf_list h l"
  shows "\<exists>r h' l'. pop_front (h, l) = Some (r, (h', l')) \<and> local_step h l h' l'"
proof -
  from assms obtain cs where r: "repr h l cs" by (auto simp: wf_list_repr)
  show ?thesis
  proof (cases cs)
    case Nil
    with r have "head l = None" by (simp add: repr_def)
    with assms show ?thesis by (simp add: pop_front_empty local_step_refl)
  next
    case (Cons c ds)
    from pop_front_repr[OF r[unfolded Cons]] obtain h' l' where
      "pop_front (h, l) = Some (Inr (), (h', l'))" "repr h' l' ds" "frame h h' {fst c}"
      by blast
    with r Cons show ?thesis
      by (auto intro!: local_stepI[where A = "{fst c}"])
  qed
qed

lemma pop_back_local:
  assumes "wf_list h l"
  shows "\<exists>r h' l'. pop_back (h, l) = Some (r, (h', l')) \<and> local_step h l h' l'"
proof -
  from assms obtain cs where r: "repr h l cs" by (auto simp: wf_list_repr)
  show ?thesis
  proof (cases cs rule: rev_cases)
    case Nil
    with r have "head l = None" by (simp add: repr_def)
    with assms show ?thesis by (simp add: pop_back_def local_step_refl)
  next
    case (snoc ds c)
    from pop_back_repr[OF r[unfolded snoc]] obtain h' l' where
      "pop_back (h, l) = Some (Inr (), (h', l'))" "repr h' l' ds"
      "frame h h' (fst ` set (ds @ [c]))"
      by blast
    with r snoc show ?thesis
      by (auto intro!: local_stepI[where A = "fst ` set cs"])
  qed
qed

lemma insert_after_local:
  assumes "wf_list h l" and "case pos of None \<Rightarrow> True | Some p \<Rightarrow> p \<in> set (nodes_of h l)"
  shows "\<exists>r h' l'. insert_after pos v (h, l) = Some (r, (h', l')) \<and> local_step h l h' l'"
proof (cases pos)
  case None
  with assms(1) show ?thesis by (simp add: insert_after_end local_step_refl)
next
  case (Some p)
  from assms(1) obtain cs where r: "repr h l cs" by (auto simp: wf_list_repr)
  with assms(2) Some have "p \<in> fst ` set cs" by (simp add: repr_nodes_of)
  then obtain x where "(p, x) \<in> set cs" by auto
  then obtain cs1 cs2 where cs: "cs = cs1 @ (p, x) # cs2"
    by (auto simp: in_set_conv_decomp)
  from insert_after_repr[OF r[unfolded cs], of v] obtain h' l' where
    "insert_after (Some p) v (h, l) = Some (Inr (Some (length h)), (h', l'))"
    "repr h' l' (cs1 @ (p, x) # (length h, v) # cs2)" "frame h h' {p}"
    by blast
  with r cs Some show ?thesis
    by (auto intro!: local_stepI[where A = "{p}"])
qed

lemma erase_after_local:
  assumes "wf_list h l" and "case pos of None \<Rightarrow> True | Some p \<Rightarrow> p \<in> set (nodes_of h l)"
  shows "\<exists>r h' l'. erase_after pos (h, l) = Some (r, (h', l')) \<and> local_step h l h' l'"
proof (cases pos)
  case None
  with assms(1) show ?thesis by (simp add: erase_after_end local_step_refl)
next
  case (Some p)
  from assms(1) obtain cs where r: "repr h l cs" by (auto simp: wf_list_repr)
  with assms(2) Some have "p \<in> fst ` set cs" by (simp add: repr_nodes_of)
  then obtain x where "(p, x) \<in> set cs" by auto
  then obtain cs1 cs2 where cs: "cs = cs1 @ (p, x) # cs2"
    by (auto simp: in_set_conv_decomp)
  show ?thesis
  proof (cases cs2)
    case Nil
    with r cs have "erase_after (Some p) (h, l) = Some (Inl Out_of_range, (h, l))"
      by (simp add: erase_after_repr_last)
    with assms(1) Some show ?thesis by (simp add: local_step_refl)
  next
    case (Cons d cs3)
    obtain q y where d: "d = (q, y)" by (cases d)
    from r have r0: "repr h l (cs1 @ (p, x) # (q, y) # cs3)" by (simp add: cs Cons d)
    from erase_after_repr[OF r0] obtain ret h' l' where
      "erase_after (Some p) (h, l) = Some (Inr ret, (h', l'))"
      "repr h' l' (cs1 @ (p, x) # cs3)" "frame h h' {p, q}"
      by blast
    with r0 Some show ?thesis
      by (auto intro!: local_stepI[where A = "{p, q}"])
  qed
qed

lemma reverse_local:
  assumes "wf_list h l"
  shows "\<exists>h' l'. reverse (h, l) = Some (h', l') \<and> local_step h l h' l'"
proof -
  from assms obtain cs where r: "repr h l cs" by (auto simp: wf_list_repr)
  from reverse_repr[OF r] obtain h' l' where
    "reverse (h, l) = Some (h', l')" "repr h' l' (rev cs)" "frame h h' (fst ` set cs)"
    by blast
  with r show ?thesis
    by (auto intro!: local_stepI[where A = "fst ` set cs"])
qed

lemma clear_local:
  assumes "wf_list h l"
  shows "\<exists>h' l'. clear (h, l) = Some (h', l') \<and> local_step h l h' l'"
proof -
  from assms obtain cs where r: "repr h l cs" by (auto simp: wf_list_repr)
  from clear_repr[OF r] obtain h' where h':
    "clear (h, l) = Some (h', \<lparr>head = None, tail = None, list_size = 0\<rparr>)"
    "length h' = length h"
    "\<forall>b. lookup h' b = (if b \<in> fst ` set cs then None else lookup h b)"
    by blast
  then have "frame h h' (fst ` set cs)" by (simp add: frame_def)
  with r h'(1) repr_empty[of h'] show ?thesis
    by (auto intro!: local_stepI[where A = "fst ` set cs"])
qed

lemma front_local:
  assumes "wf_list h l"
  shows "\<exists>r. front (h, l) = Some (r, (h, l))"
proof -
  from assms obtain cs where r: "repr h l cs" by (auto simp: wf_list_repr)
  then show ?thesis
    by (cases cs) (auto simp: front_repr, simp add: front_def repr_def)
qed

lemma back_local:
  assumes "wf_list h l"
  shows "\<exists>r. back_sll (h, l) = Some (r, (h, l))"
proof -
  from assms obtain cs where r: "repr h l cs" by (auto simp: wf_list_repr)
  then show ?thesis
    by (cases cs rule: rev_cases) (auto simp: back_repr, simp add: back_sll_def repr_def)
qed

subsection \<open>Calls on one container\<close>

lemma on_object_inv:
  assumes "world_inv w" and "map_of (objs w) this = Some l"
    and "f (mem w, l) = Some (h', l')" and "local_step (mem w) l h' l'"
  shows "on_object this f w = Some \<lparr>mem = h', objs = AList.update this l' (objs w)\<rparr> \<and>
         world_inv \<lparr>mem = h', objs = AList.update this l' (objs w)\<rparr>"
proof -
  from assms(1) have d: "distinct (map fst (objs w))" and s: "store_inv (mem w) (map_of (objs w))"
    by (simp_all add: world_inv_iff)
  from store_inv_local_step[OF s assms(2,4)]
  have "store_inv h' (map_of (AList.update this l' (objs w)))"
    by (simp add: update_conv')
  with d assms(2,3) show ?thesis
    by (simp add: on_object_def world_inv_iff distinct_update)
qed

lemma member_inv:
  assumes "world_inv w" and "map_of (objs w) this = Some l"
    and "f (mem w, l) = Some (r, (h', l'))" and "local_step (mem w) l h' l'"
  shows "member this f k w =
           Some (map_sum id k r, \<lparr>mem = h', objs = AList.update this l' (objs w)\<rparr>) \<and>
         world_inv \<lparr>mem = h', objs = AList.update this l' (objs w)\<rparr>"
proof -
  from assms(1) have d: "distinct (map fst (objs w))" and s: "store_inv (mem w) (map_of (objs w))"
    by (simp_all add: world_inv_iff)
  from store_inv_local_step[OF s assms(2,4)]
  have "store_inv h' (map_of (AList.update this l' (objs w)))"
    by (simp add: update_conv')
  with d assms(2,3) show ?thesis
    by (simp add: member_def world_inv_iff distinct_update)
qed

lemma world_inv_wf: "world_inv w \<Longrightarrow> map_of (objs w) i = Some l \<Longrightarrow> wf_list (mem w) l"
  by (auto simp: world_inv_iff dest: store_inv_wf)

lemma returns_Some [simp]: "returns (Some w) = Some (Inr Void, w)"
  by (simp add: returns_def)

subsection \<open>Calls on several containers\<close>

lemma repr_Nil_nodes: "repr h l [] \<Longrightarrow> repr h l cs \<Longrightarrow> cs = []"
  by (rule repr_unique[rotated])

text \<open>
  A store built from the containers of a store that satisfies the invariant, each used at
  most once, and from empty containers, satisfies it too.
\<close>

lemma store_inv_rearrange:
  assumes inv: "store_inv h m"
    and src: "\<And>i l. m' i = Some l \<Longrightarrow> repr h l [] \<or> m (g i) = Some l"
    and inj: "\<And>i j li lj. i \<noteq> j \<Longrightarrow> m' i = Some li \<Longrightarrow> m' j = Some lj \<Longrightarrow>
                \<not> repr h li [] \<Longrightarrow> \<not> repr h lj [] \<Longrightarrow> g i \<noteq> g j"
  shows "store_inv h m'"
proof (rule store_invI)
  fix i l assume "m' i = Some l"
  from src[OF this] show "\<exists>cs. repr h l cs"
    using store_inv_wf[OF inv] by (auto simp: wf_list_repr)
next
  fix i j li lj cs ds
  assume ij: "i \<noteq> j" "m' i = Some li" "m' j = Some lj" and r: "repr h li cs" "repr h lj ds"
  show "fst ` set cs \<inter> fst ` set ds = {}"
  proof (cases "repr h li [] \<or> repr h lj []")
    case True
    with r have "cs = [] \<or> ds = []" by (auto dest: repr_Nil_nodes)
    then show ?thesis by auto
  next
    case False
    with src[OF ij(2)] src[OF ij(3)] have m: "m (g i) = Some li" "m (g j) = Some lj" by auto
    from False inj[OF ij] have "g i \<noteq> g j" by blast
    from store_inv_disjoint[OF inv m this r] show ?thesis .
  qed
qed

lemma default_construct_inv:
  assumes "world_inv w"
  shows "world_inv (default_construct this w)"
proof -
  let ?e = "\<lparr>head = None, tail = None, list_size = 0\<rparr>"
  from assms have d: "distinct (map fst (objs w))" and s: "store_inv (mem w) (map_of (objs w))"
    by (simp_all add: world_inv_iff)
  have "store_inv (mem w) ((map_of (objs w))(this \<mapsto> ?e))"
    using s by (rule store_inv_rearrange[where g = id]) (auto simp: repr_empty split: if_splits)
  with d show ?thesis
    by (simp add: default_construct_def world_inv_iff distinct_update update_conv')
qed

lemma default_construct_obj [simp]:
  "map_of (objs (default_construct this w)) =
     (map_of (objs w))(this \<mapsto> \<lparr>head = None, tail = None, list_size = 0\<rparr>)"
  "mem (default_construct this w) = mem w"
  by (simp_all add: default_construct_def update_conv')

lemma init_loop_inv:
  assumes "world_inv w" and "map_of (objs w) this = Some l"
  shows "\<exists>w'. init_loop this vs w = Some w' \<and> world_inv w'"
  using assms
proof (induction vs arbitrary: w l)
  case Nil
  then show ?case by simp
next
  case (Cons v vs)
  from Cons.prems have wf: "wf_list (mem w) l" by (rule world_inv_wf)
  from push_back_local[OF wf, of v] obtain h' l' where
    pb: "push_back v (mem w, l) = Some (h', l')" "local_step (mem w) l h' l'"
    by blast
  let ?w = "\<lparr>mem = h', objs = AList.update this l' (objs w)\<rparr>"
  from on_object_inv[where f = "push_back v", OF Cons.prems pb] have
    1: "on_object this (push_back v) w = Some ?w" and 2: "world_inv ?w"
    by simp_all
  have 3: "map_of (objs ?w) this = Some l'" by (simp add: update_conv')
  from Cons.IH[OF 2 3] 1 show ?case by simp
qed

lemma copy_loop_step:
  assumes "lookup (mem w) a = Some n" and "on_object this (push_back (data n)) w = Some w1"
    and "lookup (mem w1) a = Some n1"
  shows "copy_loop this (Some a) w = copy_loop this (nxt n1) w1"
  using assms by (subst copy_loop.simps) simp

lemma copy_loop_inv:
  assumes "world_inv w" and "map_of (objs w) this = Some l" and "repr (mem w) l cs"
    and "path (mem w) it ds None" and "fst ` set ds \<inter> fst ` set cs = {}"
  shows "\<exists>w' l' new.
     copy_loop this it w = Some w' \<and> world_inv w' \<and>
     map_of (objs w') = (map_of (objs w))(this \<mapsto> l') \<and>
     repr (mem w') l' (cs @ new) \<and> map snd new = map snd ds \<and>
     frame (mem w) (mem w') (fst ` set cs)"
  using assms
proof (induction ds arbitrary: w it l cs)
  case Nil
  then have "it = None" by simp
  then have "copy_loop this it w = Some w" by (subst copy_loop.simps) simp
  moreover have "map_of (objs w) = (map_of (objs w))(this \<mapsto> l)"
    using Nil.prems(2) by (simp add: map_upd_triv)
  ultimately show ?case using Nil.prems(1,3)
    by (intro exI[of _ w] exI[of _ l] exI[of _ "[]"]) simp
next
  case (Cons d ds)
  let ?h = "mem w"
  from Cons.prems(4) obtain n where n: "it = Some (fst d)" "lookup ?h (fst d) = Some n"
    "data n = snd d" "path ?h (nxt n) ds None"
    by (auto split: option.splits)
  from push_back_repr[OF Cons.prems(3), of "snd d"] obtain h1 l1 where
    pb: "push_back (snd d) (?h, l) = Some (h1, l1)"
    and r1: "repr h1 l1 (cs @ [(length ?h, snd d)])" and fr: "frame ?h h1 (fst ` set cs)"
    by blast
  have ls: "local_step ?h l h1 l1"
    using Cons.prems(3) r1 fr by (rule local_stepI) auto
  let ?w1 = "\<lparr>mem = h1, objs = AList.update this l1 (objs w)\<rparr>"
  from on_object_inv[where f = "push_back (snd d)", OF Cons.prems(1,2) pb ls] have
    oo: "on_object this (push_back (snd d)) w = Some ?w1" and inv1: "world_inv ?w1"
    by simp_all
  have obj1: "map_of (objs ?w1) this = Some l1" by (simp add: update_conv')
  have less: "a < length ?h" if "a \<in> fst ` set (d # ds)" for a
    using Cons.prems(4) that by (rule path_less)
  from Cons.prems(5) have dcs: "fst d \<notin> fst ` set cs" "fst ` set ds \<inter> fst ` set cs = {}"
    by auto
  from fr less[of "fst d"] dcs(1) have lk: "lookup h1 (fst d) = Some n"
    by (simp add: frame_def n(2))
  from fr n(4) dcs(2) have p1: "path h1 (nxt n) ds None" by (rule frame_path)
  have "length ?h \<notin> fst ` set ds"
    using less[of "length ?h"] by auto
  with dcs(2) have disj1: "fst ` set ds \<inter> fst ` set (cs @ [(length ?h, snd d)]) = {}"
    by simp
  from Cons.IH[OF inv1 obj1, of "cs @ [(length ?h, snd d)]" "nxt n"] r1 p1 disj1
  obtain w' l' new where IH:
    "copy_loop this (nxt n) ?w1 = Some w'" "world_inv w'"
    "map_of (objs w') = (map_of (objs ?w1))(this \<mapsto> l')"
    "repr (mem w') l' ((cs @ [(length ?h, snd d)]) @ new)" "map snd new = map snd ds"
    "frame h1 (mem w') (fst ` set (cs @ [(length ?h, snd d)]))"
    unfolding world.simps by blast
  have run: "copy_loop this it w = Some w'"
    using copy_loop_step[of w "fst d" n this ?w1 n] n oo lk IH(1) by simp
  have "frame ?h (mem w') (fst ` set cs)"
    unfolding frame_def
  proof (intro conjI allI impI)
    show "length ?h \<le> length (mem w')" using fr IH(6) by (simp add: frame_def)
  next
    fix b assume b: "b < length ?h" "b \<notin> fst ` set cs"
    with fr have "lookup h1 b = lookup ?h b" "b < length h1" by (simp_all add: frame_def)
    moreover from b IH(6) this(2) have "lookup (mem w') b = lookup h1 b"
      by (simp add: frame_def)
    ultimately show "lookup (mem w') b = lookup ?h b" by simp
  qed
  moreover have "map_of (objs w') = (map_of (objs w))(this \<mapsto> l')"
    using IH(3) by (simp add: update_conv')
  moreover have "map snd ((length ?h, snd d) # new) = map snd (d # ds)"
    using IH(5) by simp
  moreover have "repr (mem w') l' (cs @ (length ?h, snd d) # new)"
    using IH(4) by simp
  ultimately show ?case using run IH(2)
    by (intro exI[of _ w'] exI[of _ l'] exI[of _ "(length ?h, snd d) # new"]) simp
qed

lemma copy_construct_inv:
  assumes "world_inv w" and "map_of (objs w) other = Some lo" and "this \<noteq> other"
    and "repr (mem w) lo ds"
  shows "\<exists>w' l' new.
     copy_construct this other w = Some w' \<and> world_inv w' \<and>
     map_of (objs w') = (map_of (objs w))(this \<mapsto> l') \<and>
     repr (mem w') l' new \<and> map snd new = map snd ds \<and>
     frame (mem w) (mem w') {}"
proof -
  let ?e = "\<lparr>head = None, tail = None, list_size = 0\<rparr>"
  let ?w0 = "default_construct this w"
  have inv0: "world_inv ?w0" using assms(1) by (rule default_construct_inv)
  have obj0: "map_of (objs ?w0) this = Some ?e" by simp
  have oth0: "map_of (objs ?w0) other = Some lo" using assms(2,3) by simp
  have p: "path (mem ?w0) (head lo) ds None" using assms(4) by (simp add: repr_def)
  from copy_loop_inv[OF inv0 obj0 _ p, of "[]"] obtain w' l' new where
    "copy_loop this (head lo) ?w0 = Some w'" "world_inv w'"
    "map_of (objs w') = (map_of (objs ?w0))(this \<mapsto> l')"
    "repr (mem w') l' new" "map snd new = map snd ds" "frame (mem w) (mem w') {}"
    by (auto simp: repr_empty)
  with oth0 show ?thesis
    by (auto simp: copy_construct_def begin_it_def Let_def)
qed

lemma sll_fields: "l\<lparr>head := head k, tail := tail k, list_size := list_size k\<rparr> = (k :: sll)"
  by (rule sll.equality) simp_all

lemma sll_fields': "\<lparr>head = head k, tail = tail k, list_size = list_size k\<rparr> = (k :: sll)"
  by (rule sll.equality) simp_all

lemma swap_field_run:
  assumes "map_of os a = Some la" and "map_of os b = Some lb"
  shows "\<exists>os'. swap_field get put a b os = Some os' \<and>
     map_of os' = (map_of os)(a \<mapsto> put (get lb) la,
                              b \<mapsto> put (get la) (if a = b then put (get lb) la else lb)) \<and>
     (distinct (map fst os) \<longrightarrow> distinct (map fst os'))"
  using assms by (simp add: swap_field_def update_conv' distinct_update)

lemma swap_run:
  assumes "map_of (objs w) a = Some la" and "map_of (objs w) b = Some lb"
  shows "\<exists>w'. swap a b w = Some w' \<and> mem w' = mem w \<and>
     map_of (objs w') = (map_of (objs w))(a \<mapsto> lb, b \<mapsto> la) \<and>
     (distinct (map fst (objs w)) \<longrightarrow> distinct (map fst (objs w')))"
proof -
  let ?ph = "\<lambda>p l. l\<lparr>head := p\<rparr>" and ?pt = "\<lambda>p l. l\<lparr>tail := p\<rparr>"
  let ?ps = "\<lambda>n l. l\<lparr>list_size := n\<rparr>"
  from swap_field_run[OF assms, of head ?ph] obtain os1 where 1:
    "swap_field head ?ph a b (objs w) = Some os1"
    "map_of os1 = (map_of (objs w))(a \<mapsto> la\<lparr>head := head lb\<rparr>,
        b \<mapsto> (if a = b then la\<lparr>head := head lb\<rparr> else lb)\<lparr>head := head la\<rparr>)"
    "distinct (map fst (objs w)) \<longrightarrow> distinct (map fst os1)"
    by blast
  let ?a1 = "if a = b then la else la\<lparr>head := head lb\<rparr>"
  let ?b1 = "if a = b then la else lb\<lparr>head := head la\<rparr>"
  from 1(2) assms have m1: "map_of os1 a = Some ?a1" "map_of os1 b = Some ?b1"
    by auto
  from swap_field_run[OF m1, of tail ?pt] obtain os2 where 2:
    "swap_field tail ?pt a b os1 = Some os2"
    "map_of os2 = (map_of os1)(a \<mapsto> ?a1\<lparr>tail := tail ?b1\<rparr>,
        b \<mapsto> (if a = b then ?a1\<lparr>tail := tail ?b1\<rparr> else ?b1)\<lparr>tail := tail ?a1\<rparr>)"
    "distinct (map fst os1) \<longrightarrow> distinct (map fst os2)"
    by blast
  let ?a2 = "if a = b then la else la\<lparr>head := head lb, tail := tail lb\<rparr>"
  let ?b2 = "if a = b then la else lb\<lparr>head := head la, tail := tail la\<rparr>"
  from 2(2) have m2: "map_of os2 a = Some ?a2" "map_of os2 b = Some ?b2"
    by auto
  from swap_field_run[OF m2, of list_size ?ps] obtain os3 where 3:
    "swap_field list_size ?ps a b os2 = Some os3"
    "map_of os3 = (map_of os2)(a \<mapsto> ?a2\<lparr>list_size := list_size ?b2\<rparr>,
        b \<mapsto> (if a = b then ?a2\<lparr>list_size := list_size ?b2\<rparr> else ?b2)\<lparr>list_size := list_size ?a2\<rparr>)"
    "distinct (map fst os2) \<longrightarrow> distinct (map fst os3)"
    by blast
  have "map_of os3 = (map_of (objs w))(a \<mapsto> lb, b \<mapsto> la)"
  proof (cases "a = b")
    case True
    with assms have "la = lb" by simp
    with True 1(2) 2(2) 3(2) show ?thesis by (simp add: fun_eq_iff)
  next
    case False
    with 1(2) 2(2) 3(2) show ?thesis
      by (simp add: fun_eq_iff sll_fields)
  qed
  with 1 2 3 show ?thesis by (simp add: swap_def)
qed

lemma swap_inv:
  assumes "world_inv w" and "map_of (objs w) a = Some la" and "map_of (objs w) b = Some lb"
  shows "\<exists>w'. swap a b w = Some w' \<and> world_inv w' \<and> mem w' = mem w \<and>
     map_of (objs w') = (map_of (objs w))(a \<mapsto> lb, b \<mapsto> la)"
proof -
  from swap_run[OF assms(2,3)] obtain w' where w':
    "swap a b w = Some w'" "mem w' = mem w"
    "map_of (objs w') = (map_of (objs w))(a \<mapsto> lb, b \<mapsto> la)"
    "distinct (map fst (objs w)) \<longrightarrow> distinct (map fst (objs w'))"
    by blast
  from assms(1) have d: "distinct (map fst (objs w))" and s: "store_inv (mem w) (map_of (objs w))"
    by (simp_all add: world_inv_iff)
  have "store_inv (mem w) ((map_of (objs w))(a \<mapsto> lb, b \<mapsto> la))"
    using s
  proof (rule store_inv_rearrange[where g = "\<lambda>i. if i = a then b else if i = b then a else i"])
    fix i l assume "((map_of (objs w))(a \<mapsto> lb, b \<mapsto> la)) i = Some l"
    with assms(2,3) show "repr (mem w) l [] \<or>
        map_of (objs w) (if i = a then b else if i = b then a else i) = Some l"
      by (auto split: if_splits)
  next
    fix i j :: oid assume "i \<noteq> j"
    then show "(if i = a then b else if i = b then a else i) \<noteq>
        (if j = a then b else if j = b then a else j)"
      by (auto split: if_splits)
  qed
  with w' d show ?thesis by (simp add: world_inv_iff)
qed

lemma move_construct_run:
  assumes "map_of (objs w) other = Some lo" and "this \<noteq> other"
  shows "\<exists>w'. move_construct this other w = Some w' \<and> mem w' = mem w \<and>
     map_of (objs w') = (map_of (objs w))(this \<mapsto> lo,
        other \<mapsto> \<lparr>head = None, tail = None, list_size = 0\<rparr>) \<and>
     (distinct (map fst (objs w)) \<longrightarrow> distinct (map fst (objs w')))"
proof -
  have "lo\<lparr>head := None, tail := None, list_size := 0\<rparr> =
      \<lparr>head = None, tail = None, list_size = 0\<rparr>"
    by (rule sll.equality) simp_all
  with assms show ?thesis
    by (simp add: move_construct_def update_conv' distinct_update sll_fields' fun_eq_iff)
qed

lemma move_construct_inv:
  assumes "world_inv w" and "map_of (objs w) other = Some lo" and "this \<noteq> other"
  shows "\<exists>w'. move_construct this other w = Some w' \<and> world_inv w' \<and> mem w' = mem w \<and>
     map_of (objs w') = (map_of (objs w))(this \<mapsto> lo,
        other \<mapsto> \<lparr>head = None, tail = None, list_size = 0\<rparr>)"
proof -
  let ?e = "\<lparr>head = None, tail = None, list_size = 0\<rparr>"
  from move_construct_run[OF assms(2,3)] obtain w' where w':
    "move_construct this other w = Some w'" "mem w' = mem w"
    "map_of (objs w') = (map_of (objs w))(this \<mapsto> lo, other \<mapsto> ?e)"
    "distinct (map fst (objs w)) \<longrightarrow> distinct (map fst (objs w'))"
    by blast
  from assms(1) have d: "distinct (map fst (objs w))" and s: "store_inv (mem w) (map_of (objs w))"
    by (simp_all add: world_inv_iff)
  have "store_inv (mem w) ((map_of (objs w))(this \<mapsto> lo, other \<mapsto> ?e))"
    using s
  proof (rule store_inv_rearrange[where g = "\<lambda>i. if i = this then other else i"])
    fix i l assume "((map_of (objs w))(this \<mapsto> lo, other \<mapsto> ?e)) i = Some l"
    with assms(2,3) show "repr (mem w) l [] \<or>
        map_of (objs w) (if i = this then other else i) = Some l"
      by (auto simp: repr_empty split: if_splits)
  next
    fix i j li lj
    assume "i \<noteq> j" "((map_of (objs w))(this \<mapsto> lo, other \<mapsto> ?e)) i = Some li"
      "((map_of (objs w))(this \<mapsto> lo, other \<mapsto> ?e)) j = Some lj"
      "\<not> repr (mem w) li []" "\<not> repr (mem w) lj []"
    then show "(if i = this then other else i) \<noteq> (if j = this then other else j)"
      by (auto simp: repr_empty split: if_splits)
  qed
  with w' d show ?thesis by (simp add: world_inv_iff)
qed

lemma destroy_inv:
  assumes "world_inv w" and "map_of (objs w) this = Some l" and "repr (mem w) l cs"
  shows "\<exists>w'. destroy this w = Some w' \<and> world_inv w' \<and>
     map_of (objs w') = (map_of (objs w))(this := None) \<and>
     frame (mem w) (mem w') (fst ` set cs) \<and> length (mem w') = length (mem w)"
proof -
  let ?e = "\<lparr>head = None, tail = None, list_size = 0\<rparr>"
  from assms(3) have "path (mem w) (head l) cs None" by (simp add: repr_def)
  from dispose_chain[OF this] obtain h' where h':
    "dispose (mem w) (head l) = Some h'" "length h' = length (mem w)"
    "\<forall>b. lookup h' b = (if b \<in> fst ` set cs then None else lookup (mem w) b)"
    by blast
  then have fr: "frame (mem w) h' (fst ` set cs)" by (simp add: frame_def)
  from assms(1) have d: "distinct (map fst (objs w))" and s: "store_inv (mem w) (map_of (objs w))"
    by (simp_all add: world_inv_iff)
  have "local_step (mem w) l h' ?e"
    using assms(3) repr_empty[of h'] fr by (rule local_stepI) auto
  from store_inv_local_step[OF s assms(2) this]
  have "store_inv h' ((map_of (objs w))(this \<mapsto> ?e))" .
  then have "store_inv h' ((map_of (objs w))(this := None))"
    by (rule store_inv_rearrange[where g = id]) (auto split: if_splits)
  with h'(1,2) assms(2) d fr show ?thesis
    by (simp add: destroy_def world_inv_iff distinct_delete delete_conv')
qed


lemma world_inv_repr:
  "world_inv w \<Longrightarrow> map_of (objs w) i = Some l \<Longrightarrow> \<exists>cs. repr (mem w) l cs"
  by (auto dest: world_inv_wf simp: wf_list_repr)

lemma world_inv_disjoint:
  "world_inv w \<Longrightarrow> map_of (objs w) i = Some li \<Longrightarrow> map_of (objs w) j = Some lj \<Longrightarrow>
   i \<noteq> j \<Longrightarrow> repr (mem w) li cs \<Longrightarrow> repr (mem w) lj ds \<Longrightarrow>
   fst ` set cs \<inter> fst ` set ds = {}"
  using store_inv_disjoint[of "mem w" "map_of (objs w)" i li j lj cs ds]
  by (simp add: world_inv_iff)

lemma frame_same_length:
  assumes "frame h h' {}" and "length h' = length h"
  shows "h' = h"
  using assms by (intro heap_eqI) (auto simp: frame_def lookup_def)

text \<open>Copy assignment gives \<^verbatim>\<open>*this\<close> new nodes with the elements of the right-hand side.\<close>

lemma copy_assign_inv:
  assumes "world_inv w" and "map_of (objs w) this = Some lt" and "map_of (objs w) src = Some ls"
    and "map_of (objs w) tmp = None" and "repr (mem w) ls ds"
  shows "\<exists>w' l' new. copy_assign this src tmp w = Some w' \<and> world_inv w' \<and>
     map_of (objs w') = (map_of (objs w))(this \<mapsto> l') \<and>
     repr (mem w') l' new \<and> map snd new = map snd ds"
proof -
  from assms(2,3,4) have ne: "tmp \<noteq> src" "this \<noteq> tmp" by auto
  from copy_construct_inv[OF assms(1,3) ne(1) assms(5)] obtain w1 l' new where w1:
    "copy_construct tmp src w = Some w1" "world_inv w1"
    "map_of (objs w1) = (map_of (objs w))(tmp \<mapsto> l')"
    "repr (mem w1) l' new" "map snd new = map snd ds"
    by blast
  from w1(3) assms(2) ne have o1: "map_of (objs w1) this = Some lt" "map_of (objs w1) tmp = Some l'"
    by simp_all
  from swap_inv[OF w1(2) o1] obtain w2 where w2:
    "swap this tmp w1 = Some w2" "world_inv w2" "mem w2 = mem w1"
    "map_of (objs w2) = (map_of (objs w1))(this \<mapsto> l', tmp \<mapsto> lt)"
    by blast
  from w2(4) ne have o2: "map_of (objs w2) tmp = Some lt" "map_of (objs w2) this = Some l'"
    by simp_all
  from world_inv_repr[OF w2(2) o2(1)] obtain cs where cs: "repr (mem w2) lt cs" ..
  from destroy_inv[OF w2(2) o2(1) cs] obtain w3 where w3:
    "destroy tmp w2 = Some w3" "world_inv w3"
    "map_of (objs w3) = (map_of (objs w2))(tmp := None)"
    "frame (mem w2) (mem w3) (fst ` set cs)"
    by blast
  from w1(4) w2(3) have r2: "repr (mem w2) l' new" by simp
  from world_inv_disjoint[OF w2(2) o2(2) o2(1) ne(2) r2 cs]
  have "fst ` set new \<inter> fst ` set cs = {}" .
  with w3(4) r2 have "repr (mem w3) l' new" by (rule frame_repr)
  moreover have "map_of (objs w3) = (map_of (objs w))(this \<mapsto> l')"
    using w3(3) w2(4) w1(3) assms(4) ne by (auto simp: fun_eq_iff)
  moreover have "copy_assign this src tmp w = Some w3"
    using w1(1) w2(1) w3(1) by (simp add: copy_assign_def assign_def)
  ultimately show ?thesis using w3(2) w1(5) by blast
qed

text \<open>
  Move assignment gives \<^verbatim>\<open>*this\<close> the nodes of the right-hand side and leaves the
  right-hand side empty, unless it is \<^verbatim>\<open>*this\<close> itself.
\<close>

lemma move_assign_inv:
  assumes "world_inv w" and "map_of (objs w) this = Some lt" and "map_of (objs w) src = Some ls"
    and "map_of (objs w) tmp = None" and "repr (mem w) ls ds"
  shows "\<exists>w'. move_assign this src tmp w = Some w' \<and> world_inv w' \<and>
     map_of (objs w') =
       (map_of (objs w))(src \<mapsto> \<lparr>head = None, tail = None, list_size = 0\<rparr>, this \<mapsto> ls) \<and>
     repr (mem w') ls ds \<and> (this = src \<longrightarrow> mem w' = mem w)"
proof -
  let ?e = "\<lparr>head = None, tail = None, list_size = 0\<rparr>"
  from assms(2,3,4) have ne: "tmp \<noteq> src" "this \<noteq> tmp" by auto
  from move_construct_inv[OF assms(1,3) ne(1)] obtain w1 where w1:
    "move_construct tmp src w = Some w1" "world_inv w1" "mem w1 = mem w"
    "map_of (objs w1) = (map_of (objs w))(tmp \<mapsto> ls, src \<mapsto> ?e)"
    by blast
  let ?x = "if this = src then ?e else lt"
  from w1(4) assms(2) ne have o1: "map_of (objs w1) this = Some ?x" "map_of (objs w1) tmp = Some ls"
    by simp_all
  from swap_inv[OF w1(2) o1] obtain w2 where w2:
    "swap this tmp w1 = Some w2" "world_inv w2" "mem w2 = mem w1"
    "map_of (objs w2) = (map_of (objs w1))(this \<mapsto> ls, tmp \<mapsto> ?x)"
    by blast
  from w2(4) ne have o2: "map_of (objs w2) tmp = Some ?x" "map_of (objs w2) this = Some ls"
    by simp_all
  from world_inv_repr[OF w2(2) o2(1)] obtain cs where cs: "repr (mem w2) ?x cs" ..
  from destroy_inv[OF w2(2) o2(1) cs] obtain w3 where w3:
    "destroy tmp w2 = Some w3" "world_inv w3"
    "map_of (objs w3) = (map_of (objs w2))(tmp := None)"
    "frame (mem w2) (mem w3) (fst ` set cs)" "length (mem w3) = length (mem w2)"
    by blast
  from assms(5) w1(3) w2(3) have r2: "repr (mem w2) ls ds" by simp
  from world_inv_disjoint[OF w2(2) o2(2) o2(1) ne(2) r2 cs]
  have "fst ` set ds \<inter> fst ` set cs = {}" .
  with w3(4) r2 have "repr (mem w3) ls ds" by (rule frame_repr)
  moreover have "map_of (objs w3) = (map_of (objs w))(src \<mapsto> ?e, this \<mapsto> ls)"
    using w3(3) w2(4) w1(4) assms(4) ne by (auto simp: fun_eq_iff)
  moreover have "move_assign this src tmp w = Some w3"
    using w1(1) w2(1) w3(1) by (simp add: move_assign_def assign_def)
  moreover have "mem w3 = mem w" if "this = src"
  proof -
    from that cs have "cs = []" using repr_empty[of "mem w2"] by (auto dest: repr_unique)
    with w3(4,5) have "mem w3 = mem w2" by (simp add: frame_same_length)
    with w1(3) w2(3) show ?thesis by simp
  qed
  ultimately show ?thesis using w3(2) by blast
qed

section \<open>Claims on worlds of containers\<close>

subsection \<open>Every call keeps the invariant\<close>

lemma alive_iff: "alive w i \<longleftrightarrow> (\<exists>l. map_of (objs w) i = Some l)"
  by (simp add: alive_def)

lemma valid_pos_iff:
  "valid_pos w this pos \<longleftrightarrow>
     (\<exists>l. map_of (objs w) this = Some l \<and>
        (case pos of None \<Rightarrow> True | Some p \<Rightarrow> p \<in> set (nodes_of (mem w) l)))"
  by (simp add: valid_pos_def split: option.splits)

lemma exec_on_object:
  assumes "world_inv w" and "alive w this"
    and "\<And>h l. wf_list h l \<Longrightarrow> \<exists>h' l'. f (h, l) = Some (h', l') \<and> local_step h l h' l'"
  shows "\<exists>r w'. returns (on_object this f w) = Some (r, w') \<and> world_inv w'"
proof -
  from assms(2) obtain l where l: "map_of (objs w) this = Some l" by (auto simp: alive_iff)
  from assms(3)[OF world_inv_wf[OF assms(1) l]] obtain h' l' where
    "f (mem w, l) = Some (h', l')" "local_step (mem w) l h' l'" by blast
  from on_object_inv[where f = f, OF assms(1) l this] show ?thesis by simp
qed

lemma exec_member:
  assumes "world_inv w" and "map_of (objs w) this = Some l"
    and "wf_list (mem w) l \<Longrightarrow>
         \<exists>r h' l'. f (mem w, l) = Some (r, (h', l')) \<and> local_step (mem w) l h' l'"
  shows "\<exists>r w'. member this f k w = Some (r, w') \<and> world_inv w'"
proof -
  from assms(3)[OF world_inv_wf[OF assms(1,2)]] obtain r h' l' where
    "f (mem w, l) = Some (r, (h', l'))" "local_step (mem w) l h' l'" by blast
  from member_inv[where f = f, OF assms(1,2) this] show ?thesis by blast
qed

lemma exec_inv:
  assumes "world_inv w" and "valid_call c w"
  shows "\<exists>r w'. exec c w = Some (r, w') \<and> world_inv w'"
proof (cases c)
  case (Default_construct this)
  with assms show ?thesis by (simp add: default_construct_inv)
next
  case (Init_construct this ilist)
  have "map_of (objs (default_construct this w)) this =
      Some \<lparr>head = None, tail = None, list_size = 0\<rparr>" by simp
  from init_loop_inv[OF default_construct_inv[OF assms(1)] this, of ilist]
  show ?thesis by (auto simp: Init_construct init_construct_def)
next
  case (Copy_construct this other)
  with assms(2) have "\<not> alive w this" "alive w other" by simp_all
  then obtain lo where "map_of (objs w) other = Some lo" "map_of (objs w) this = None"
    by (auto simp: alive_iff)
  then have lo: "map_of (objs w) other = Some lo" "this \<noteq> other" by auto
  from world_inv_repr[OF assms(1) lo(1)] obtain ds where "repr (mem w) lo ds" ..
  from copy_construct_inv[OF assms(1) lo this] show ?thesis
    by (auto simp: Copy_construct)
next
  case (Move_construct this other)
  with assms(2) have "\<not> alive w this" "alive w other" by simp_all
  then obtain lo where "map_of (objs w) other = Some lo" "map_of (objs w) this = None"
    by (auto simp: alive_iff)
  then have lo: "map_of (objs w) other = Some lo" "this \<noteq> other" by auto
  from move_construct_inv[OF assms(1) lo] show ?thesis
    by (auto simp: Move_construct)
next
  case (Copy_assign this src tmp)
  with assms(2) obtain lt ls where o: "map_of (objs w) this = Some lt"
    "map_of (objs w) src = Some ls" "map_of (objs w) tmp = None"
    by (auto simp: alive_iff)
  from world_inv_repr[OF assms(1) o(2)] obtain ds where "repr (mem w) ls ds" ..
  from copy_assign_inv[OF assms(1) o this] show ?thesis
    by (auto simp: Copy_assign)
next
  case (Move_assign this src tmp)
  with assms(2) obtain lt ls where o: "map_of (objs w) this = Some lt"
    "map_of (objs w) src = Some ls" "map_of (objs w) tmp = None"
    by (auto simp: alive_iff)
  from world_inv_repr[OF assms(1) o(2)] obtain ds where "repr (mem w) ls ds" ..
  from move_assign_inv[OF assms(1) o this] show ?thesis
    by (auto simp: Move_assign)
next
  case (Destroy this)
  with assms(2) obtain l where l: "map_of (objs w) this = Some l" by (auto simp: alive_iff)
  from world_inv_repr[OF assms(1) l] obtain cs where "repr (mem w) l cs" ..
  from destroy_inv[OF assms(1) l this] show ?thesis
    by (auto simp: Destroy)
next
  case (Swap a b)
  with assms(2) obtain la lb where "map_of (objs w) a = Some la" "map_of (objs w) b = Some lb"
    by (auto simp: alive_iff)
  from swap_inv[OF assms(1) this] show ?thesis
    by (auto simp: Swap)
next
  case (Clear this)
  with assms exec_on_object[of w this clear] show ?thesis
    by (simp add: clear_local)
next
  case (Push_front this v)
  with assms exec_on_object[of w this "push_front v"] show ?thesis
    by (simp add: push_front_local)
next
  case (Emplace_front this v)
  with assms exec_on_object[of w this "push_front v"] show ?thesis
    by (simp add: push_front_local emplace_front_eq)
next
  case (Push_back this v)
  with assms exec_on_object[of w this "push_back v"] show ?thesis
    by (simp add: push_back_local)
next
  case (Emplace_back this v)
  with assms exec_on_object[of w this "push_back v"] show ?thesis
    by (simp add: push_back_local emplace_back_eq)
next
  case (Pop_front this)
  with assms(2) obtain l where l: "map_of (objs w) this = Some l" by (auto simp: alive_iff)
  from exec_member[of w this l pop_front, OF assms(1) l] show ?thesis
    by (simp add: Pop_front pop_front_local)
next
  case (Pop_back this)
  with assms(2) obtain l where l: "map_of (objs w) this = Some l" by (auto simp: alive_iff)
  from exec_member[of w this l pop_back, OF assms(1) l] show ?thesis
    by (simp add: Pop_back pop_back_local)
next
  case (Insert_after this pos v)
  with assms(2) obtain l where l: "map_of (objs w) this = Some l"
    "case pos of None \<Rightarrow> True | Some p \<Rightarrow> p \<in> set (nodes_of (mem w) l)"
    by (auto simp: valid_pos_iff)
  from exec_member[of w this l "insert_after pos v", OF assms(1) l(1)] l(2) show ?thesis
    by (simp add: Insert_after insert_after_local)
next
  case (Emplace_after this pos v)
  with assms(2) obtain l where l: "map_of (objs w) this = Some l"
    "case pos of None \<Rightarrow> True | Some p \<Rightarrow> p \<in> set (nodes_of (mem w) l)"
    by (auto simp: valid_pos_iff)
  from exec_member[of w this l "insert_after pos v", OF assms(1) l(1)] l(2) show ?thesis
    by (simp add: Emplace_after insert_after_local emplace_after_eq)
next
  case (Erase_after this pos)
  with assms(2) obtain l where l: "map_of (objs w) this = Some l"
    "case pos of None \<Rightarrow> True | Some p \<Rightarrow> p \<in> set (nodes_of (mem w) l)"
    by (auto simp: valid_pos_iff)
  from exec_member[of w this l "erase_after pos", OF assms(1) l(1)] l(2) show ?thesis
    by (simp add: Erase_after erase_after_local)
next
  case (Reverse this)
  with assms exec_on_object[of w this reverse] show ?thesis
    by (simp add: reverse_local)
next
  case (Front this)
  with assms(2) obtain l where l: "map_of (objs w) this = Some l" by (auto simp: alive_iff)
  have "\<exists>r h' l'. front (mem w, l) = Some (r, (h', l')) \<and> local_step (mem w) l h' l'"
    if "wf_list (mem w) l"
    using front_local[OF that] local_step_refl[OF that] by blast
  from exec_member[of w this l front, OF assms(1) l this] show ?thesis
    by (simp add: Front)
next
  case (Back this)
  with assms(2) obtain l where l: "map_of (objs w) this = Some l" by (auto simp: alive_iff)
  have "\<exists>r h' l'. back_sll (mem w, l) = Some (r, (h', l')) \<and> local_step (mem w) l h' l'"
    if "wf_list (mem w) l"
    using back_local[OF that] local_step_refl[OF that] by blast
  from exec_member[of w this l back_sll, OF assms(1) l this] show ?thesis
    by (simp add: Back)
qed

lemma initial_world_inv: "world_inv \<lparr>mem = [], objs = []\<rparr>"
  by (simp add: world_inv_def)

text \<open>Every world a program can reach satisfies the invariant.\<close>

lemma reachable_world_inv: "reachable w \<Longrightarrow> world_inv w"
proof (induction rule: reachable.induct)
  case initial
  show ?case by (rule initial_world_inv)
next
  case (step w c r w')
  from exec_inv[OF step.IH step.hyps(2)] step.hyps(3) show ?case by auto
qed

text \<open>
  Claim C1. In a world that satisfies the invariant, every call that respects the contract of
  its operation returns or throws, and the world it leaves satisfies the invariant again: in
  particular every container alive afterwards is well formed, that is, its count is 0 iff
  its head is null iff its tail is null, its tail, when not null, is the node of its chain
  whose link is null, and its size is the number of elements the traversal from
  \<^verbatim>\<open>begin()\<close> to \<^verbatim>\<open>end()\<close> visits. The calls are the constructors (default,
  initializer list, copy, move), copy and move assignment, the destructor, \<^verbatim>\<open>swap\<close>,
  \<^verbatim>\<open>clear\<close>, \<^verbatim>\<open>push_front\<close>, \<^verbatim>\<open>emplace_front\<close>, \<^verbatim>\<open>push_back\<close>, \<^verbatim>\<open>emplace_back\<close>,
  \<^verbatim>\<open>pop_front\<close>, \<^verbatim>\<open>pop_back\<close>, \<^verbatim>\<open>insert_after\<close>, \<^verbatim>\<open>emplace_after\<close>, \<^verbatim>\<open>erase_after\<close>,
  \<^verbatim>\<open>reverse\<close>, \<^verbatim>\<open>front\<close> and \<^verbatim>\<open>back\<close>. The empty world satisfies the invariant, so every
  reachable world does (\<open>reachable_world_inv\<close>).
\<close>

theorem invariant_preserved:
  assumes "world_inv w" and "valid_call c w"
  shows "\<exists>r w'. exec c w = Some (r, w') \<and> world_inv w' \<and>
           (\<forall>i l. map_of (objs w') i = Some l \<longrightarrow> wf_list (mem w') l)"
proof -
  from exec_inv[OF assms] obtain r w' where "exec c w = Some (r, w')" "world_inv w'"
    by blast
  then show ?thesis by (blast intro: world_inv_wf)
qed

text \<open>
  The theorem on a world with the containers \<^verbatim>\<open>[10, 50]\<close> and \<^verbatim>\<open>[7]\<close>, for the copy
  assignment of the first to the second.
\<close>

theorem invariant_preserved_witness:
  "world_inv \<lparr>mem = [Some \<lparr>data = 10::int, nxt = Some 1\<rparr>, Some \<lparr>data = 50, nxt = None\<rparr>,
                     Some \<lparr>data = 7, nxt = None\<rparr>],
              objs = [(0, \<lparr>head = Some 0, tail = Some 1, list_size = 2\<rparr>),
                      (1, \<lparr>head = Some 2, tail = Some 2, list_size = 1\<rparr>)]\<rparr> \<and>
   valid_call (Copy_assign 1 0 2)
     \<lparr>mem = [Some \<lparr>data = 10::int, nxt = Some 1\<rparr>, Some \<lparr>data = 50, nxt = None\<rparr>,
             Some \<lparr>data = 7, nxt = None\<rparr>],
      objs = [(0, \<lparr>head = Some 0, tail = Some 1, list_size = 2\<rparr>),
              (1, \<lparr>head = Some 2, tail = Some 2, list_size = 1\<rparr>)]\<rparr> \<and>
   (\<exists>r w'. exec (Copy_assign 1 0 2)
       \<lparr>mem = [Some \<lparr>data = 10::int, nxt = Some 1\<rparr>, Some \<lparr>data = 50, nxt = None\<rparr>,
               Some \<lparr>data = 7, nxt = None\<rparr>],
        objs = [(0, \<lparr>head = Some 0, tail = Some 1, list_size = 2\<rparr>),
                (1, \<lparr>head = Some 2, tail = Some 2, list_size = 1\<rparr>)]\<rparr> = Some (r, w') \<and>
      world_inv w')"
proof -
  let ?w = "\<lparr>mem = [Some \<lparr>data = 10::int, nxt = Some 1\<rparr>, Some \<lparr>data = 50, nxt = None\<rparr>,
                     Some \<lparr>data = 7, nxt = None\<rparr>],
              objs = [(0, \<lparr>head = Some 0, tail = Some 1, list_size = 2\<rparr>),
                      (1, \<lparr>head = Some 2, tail = Some 2, list_size = 1\<rparr>)]\<rparr>"
  have inv: "world_inv ?w" by code_simp
  have ok: "valid_call (Copy_assign 1 0 2) ?w" by (simp add: alive_def)
  from invariant_preserved[OF inv ok] inv ok show ?thesis by blast
qed

subsection \<open>Failed calls\<close>

lemma pop_front_throw: "pop_front s = Some (Inl e, s') \<Longrightarrow> s' = s"
  by (cases s) (auto simp: pop_front_def Let_def split: option.splits Option.bind_splits prod.splits)

lemma pop_back_throw: "pop_back s = Some (Inl e, s') \<Longrightarrow> s' = s"
  by (cases s)
     (auto simp: pop_back_def Let_def split: option.splits Option.bind_splits prod.splits if_splits
           dest: pop_front_throw)

lemma insert_after_throw: "insert_after pos v s = Some (Inl e, s') \<Longrightarrow> s' = s"
  by (cases s)
     (auto simp: insert_after_def make_unique_def Let_def
           split: option.splits Option.bind_splits prod.splits)

lemma erase_after_throw: "erase_after pos s = Some (Inl e, s') \<Longrightarrow> s' = s"
  by (cases s)
     (auto simp: erase_after_def Let_def split: option.splits Option.bind_splits prod.splits if_splits)

lemma front_throw: "front s = Some (Inl e, s') \<Longrightarrow> s' = s"
  by (cases s) (auto simp: front_def split: option.splits Option.bind_splits)

lemma back_throw: "back_sll s = Some (Inl e, s') \<Longrightarrow> s' = s"
  by (cases s) (auto simp: back_sll_def split: option.splits Option.bind_splits)

lemma member_throw:
  assumes "member this f k w = Some (Inl e, w')"
    and "\<And>s s' e. f s = Some (Inl e, s') \<Longrightarrow> s' = s"
  shows "w' = w"
proof -
  from assms(1) obtain l r h' l' where l: "map_of (objs w) this = Some l"
    and f: "f (mem w, l) = Some (r, (h', l'))"
    and res: "map_sum id k r = Inl e" "w' = \<lparr>mem = h', objs = AList.update this l' (objs w)\<rparr>"
    by (auto simp: member_def split: Option.bind_splits)
  from res(1) have "r = Inl e" by (cases r) auto
  with f assms(2) have "(h', l') = (mem w, l)" by blast
  with res(2) l show ?thesis by (simp add: update_triv)
qed

lemma returns_no_throw: "returns x \<noteq> Some (Inl e, w')"
  by (cases x) (simp_all add: returns_def)

text \<open>
  Claim C6. A call that throws leaves the world exactly as it was: the heap with every node
  and element, and the head, tail and count of every container. The calls that can throw are
  \<^verbatim>\<open>front\<close>, \<^verbatim>\<open>back\<close>, \<^verbatim>\<open>pop_front\<close>, \<^verbatim>\<open>pop_back\<close>, \<^verbatim>\<open>insert_after\<close>,
  \<^verbatim>\<open>emplace_after\<close> and \<^verbatim>\<open>erase_after\<close>.
\<close>

theorem failure_atomic:
  assumes "throws (exec c w) e"
  shows "exec c w = Some (Inl e, w)"
proof -
  from assms obtain w' where run: "exec c w = Some (Inl e, w')"
    by (auto simp: throws_def split: option.splits sum.splits)
  have "w' = w"
  proof (cases c)
    case (Pop_front this)
    with run show ?thesis by (auto elim: member_throw dest: pop_front_throw)
  next
    case (Pop_back this)
    with run show ?thesis by (auto elim: member_throw dest: pop_back_throw)
  next
    case (Insert_after this pos v)
    with run show ?thesis by (auto elim: member_throw dest: insert_after_throw)
  next
    case (Emplace_after this pos v)
    with run show ?thesis
      by (auto simp: emplace_after_eq elim: member_throw dest: insert_after_throw)
  next
    case (Erase_after this pos)
    with run show ?thesis by (auto elim: member_throw dest: erase_after_throw)
  next
    case (Front this)
    with run show ?thesis by (auto elim: member_throw dest: front_throw)
  next
    case (Back this)
    with run show ?thesis by (auto elim: member_throw dest: back_throw)
  qed (use run in \<open>simp_all add: returns_no_throw\<close>)
  with run show ?thesis by simp
qed

text \<open>
  The theorem on a world with the container \<^verbatim>\<open>[10, 50]\<close> and an empty container:
  \<^verbatim>\<open>pop_back\<close> on the empty one and \<^verbatim>\<open>erase_after\<close> on the last node of the other throw.
\<close>

theorem failure_atomic_witness:
  "throws (exec (Pop_back 1)
     \<lparr>mem = [Some \<lparr>data = 10::int, nxt = Some 1\<rparr>, Some \<lparr>data = 50, nxt = None\<rparr>],
      objs = [(0, \<lparr>head = Some 0, tail = Some 1, list_size = 2\<rparr>),
              (1, \<lparr>head = None, tail = None, list_size = 0\<rparr>)]\<rparr>) Out_of_range \<and>
   exec (Pop_back 1)
     \<lparr>mem = [Some \<lparr>data = 10::int, nxt = Some 1\<rparr>, Some \<lparr>data = 50, nxt = None\<rparr>],
      objs = [(0, \<lparr>head = Some 0, tail = Some 1, list_size = 2\<rparr>),
              (1, \<lparr>head = None, tail = None, list_size = 0\<rparr>)]\<rparr> =
     Some (Inl Out_of_range,
       \<lparr>mem = [Some \<lparr>data = 10::int, nxt = Some 1\<rparr>, Some \<lparr>data = 50, nxt = None\<rparr>],
        objs = [(0, \<lparr>head = Some 0, tail = Some 1, list_size = 2\<rparr>),
                (1, \<lparr>head = None, tail = None, list_size = 0\<rparr>)]\<rparr>) \<and>
   throws (exec (Erase_after 0 (Some 1))
     \<lparr>mem = [Some \<lparr>data = 10::int, nxt = Some 1\<rparr>, Some \<lparr>data = 50, nxt = None\<rparr>],
      objs = [(0, \<lparr>head = Some 0, tail = Some 1, list_size = 2\<rparr>),
              (1, \<lparr>head = None, tail = None, list_size = 0\<rparr>)]\<rparr>) Out_of_range \<and>
   exec (Erase_after 0 (Some 1))
     \<lparr>mem = [Some \<lparr>data = 10::int, nxt = Some 1\<rparr>, Some \<lparr>data = 50, nxt = None\<rparr>],
      objs = [(0, \<lparr>head = Some 0, tail = Some 1, list_size = 2\<rparr>),
              (1, \<lparr>head = None, tail = None, list_size = 0\<rparr>)]\<rparr> =
     Some (Inl Out_of_range,
       \<lparr>mem = [Some \<lparr>data = 10::int, nxt = Some 1\<rparr>, Some \<lparr>data = 50, nxt = None\<rparr>],
        objs = [(0, \<lparr>head = Some 0, tail = Some 1, list_size = 2\<rparr>),
                (1, \<lparr>head = None, tail = None, list_size = 0\<rparr>)]\<rparr>)"
proof -
  let ?w = "\<lparr>mem = [Some \<lparr>data = 10::int, nxt = Some 1\<rparr>, Some \<lparr>data = 50, nxt = None\<rparr>],
      objs = [(0, \<lparr>head = Some 0, tail = Some 1, list_size = 2\<rparr>),
              (1, \<lparr>head = None, tail = None, list_size = 0\<rparr>)]\<rparr>"
  have 1: "throws (exec (Pop_back 1) ?w) Out_of_range" by code_simp
  have 2: "throws (exec (Erase_after 0 (Some 1)) ?w) Out_of_range" by code_simp
  from failure_atomic[OF 1] failure_atomic[OF 2] 1 2 show ?thesis by simp
qed

subsection \<open>Self-assignment\<close>

text \<open>
  Claim C10. Let \<open>this\<close> be a container of a world that satisfies the invariant, and
  \<open>tmp\<close> the storage of the by-value parameter of \<^verbatim>\<open>operator=\<close>. The copy assignment
  \<^verbatim>\<open>L = L\<close> returns and leaves \<open>this\<close> with the same elements in the same order and the
  same size (in new nodes); the move assignment \<^verbatim>\<open>L = std::move(L)\<close> returns and leaves
  \<open>this\<close> with the very fields and nodes it had, the heap untouched. Both leave every other
  container as it was, and the invariant holds afterwards.
\<close>

theorem self_assignment:
  assumes "world_inv w" and "map_of (objs w) this = Some l" and "map_of (objs w) tmp = None"
  shows "\<exists>xs w1 l1 w2.
    elements (mem w) l = Some xs \<and>
    copy_assign this this tmp w = Some w1 \<and>
    map_of (objs w1) = (map_of (objs w))(this \<mapsto> l1) \<and>
    elements (mem w1) l1 = Some xs \<and> size_sll l1 = size_sll l \<and> world_inv w1 \<and>
    move_assign this this tmp w = Some w2 \<and>
    map_of (objs w2) = map_of (objs w) \<and> mem w2 = mem w \<and>
    elements (mem w2) l = Some xs \<and> world_inv w2"
proof -
  from world_inv_repr[OF assms(1,2)] obtain cs where r: "repr (mem w) l cs" ..
  from copy_assign_inv[OF assms(1,2,2,3) r] obtain w1 l1 new where w1:
    "copy_assign this this tmp w = Some w1" "world_inv w1"
    "map_of (objs w1) = (map_of (objs w))(this \<mapsto> l1)"
    "repr (mem w1) l1 new" "map snd new = map snd cs"
    by blast
  from move_assign_inv[OF assms(1,2,2,3) r] obtain w2 where w2:
    "move_assign this this tmp w = Some w2" "world_inv w2"
    "map_of (objs w2) =
       (map_of (objs w))(this \<mapsto> \<lparr>head = None, tail = None, list_size = 0\<rparr>, this \<mapsto> l)"
    "repr (mem w2) l cs" "mem w2 = mem w"
    by blast
  from w2(3) assms(2) have m2: "map_of (objs w2) = map_of (objs w)"
    by (simp add: map_upd_triv)
  from w1(5) have "length new = length cs" by (rule map_eq_imp_length_eq)
  with r w1(4) have sz: "size_sll l1 = size_sll l" by (simp add: repr_def size_sll_def)
  from r w1(4,5) w2(4) have el: "elements (mem w) l = Some (map snd cs)"
    "elements (mem w1) l1 = Some (map snd cs)" "elements (mem w2) l = Some (map snd cs)"
    by (simp_all add: repr_elements)
  with w1(1,2,3) w2(1,2,5) m2 sz show ?thesis by blast
qed

text \<open>The theorem on a world with the container \<^verbatim>\<open>[10, 50]\<close>.\<close>

theorem self_assignment_witness:
  "world_inv \<lparr>mem = [Some \<lparr>data = 10::int, nxt = Some 1\<rparr>, Some \<lparr>data = 50, nxt = None\<rparr>],
              objs = [(0, \<lparr>head = Some 0, tail = Some 1, list_size = 2\<rparr>)]\<rparr> \<and>
   (\<exists>w1 l1 w2.
      copy_assign 0 0 1
        \<lparr>mem = [Some \<lparr>data = 10::int, nxt = Some 1\<rparr>, Some \<lparr>data = 50, nxt = None\<rparr>],
         objs = [(0, \<lparr>head = Some 0, tail = Some 1, list_size = 2\<rparr>)]\<rparr> = Some w1 \<and>
      map_of (objs w1) 0 = Some l1 \<and> elements (mem w1) l1 = Some [10, 50] \<and>
      size_sll l1 = 2 \<and>
      move_assign 0 0 1
        \<lparr>mem = [Some \<lparr>data = 10::int, nxt = Some 1\<rparr>, Some \<lparr>data = 50, nxt = None\<rparr>],
         objs = [(0, \<lparr>head = Some 0, tail = Some 1, list_size = 2\<rparr>)]\<rparr> = Some w2 \<and>
      map_of (objs w2) 0 = Some \<lparr>head = Some 0, tail = Some 1, list_size = 2\<rparr> \<and>
      elements (mem w2) \<lparr>head = Some 0, tail = Some 1, list_size = 2\<rparr> = Some [10, 50])"
proof -
  let ?l = "\<lparr>head = Some 0, tail = Some 1, list_size = 2\<rparr>"
  let ?w = "\<lparr>mem = [Some \<lparr>data = 10::int, nxt = Some 1\<rparr>, Some \<lparr>data = 50, nxt = None\<rparr>],
              objs = [(0, ?l)]\<rparr>"
  have inv: "world_inv ?w" by code_simp
  have o: "map_of (objs ?w) 0 = Some ?l" "map_of (objs ?w) 1 = None" by simp_all
  have el: "elements (mem ?w) ?l = Some [10, 50]" by code_simp
  from self_assignment[OF inv o] obtain xs w1 l1 w2 where
    "elements (mem ?w) ?l = Some xs"
    "copy_assign 0 0 1 ?w = Some w1"
    "map_of (objs w1) = (map_of (objs ?w))(0 \<mapsto> l1)"
    "elements (mem w1) l1 = Some xs" "size_sll l1 = size_sll ?l"
    "move_assign 0 0 1 ?w = Some w2"
    "map_of (objs w2) = map_of (objs ?w)" "mem w2 = mem ?w"
    "elements (mem w2) ?l = Some xs"
    by blast
  with el inv show ?thesis
    by (auto simp: size_sll_def)
qed

subsection \<open>Release of a long chain\<close>

lemma init_loop_repr:
  assumes "world_inv w" and "map_of (objs w) this = Some l" and "repr (mem w) l cs"
  shows "\<exists>w' l' new.
     init_loop this vs w = Some w' \<and> world_inv w' \<and>
     map_of (objs w') = (map_of (objs w))(this \<mapsto> l') \<and>
     repr (mem w') l' (cs @ new) \<and> map snd new = vs"
  using assms
proof (induction vs arbitrary: w l cs)
  case Nil
  have "map_of (objs w) = (map_of (objs w))(this \<mapsto> l)"
    using Nil.prems(2) by (simp add: map_upd_triv)
  with Nil.prems(1,3) show ?case
    by (intro exI[of _ w] exI[of _ l] exI[of _ "[]"]) simp
next
  case (Cons v vs)
  let ?h = "mem w"
  from push_back_repr[OF Cons.prems(3), of v] obtain h1 l1 where
    pb: "push_back v (?h, l) = Some (h1, l1)"
    and r1: "repr h1 l1 (cs @ [(length ?h, v)])" and fr: "frame ?h h1 (fst ` set cs)"
    by blast
  have ls: "local_step ?h l h1 l1"
    using Cons.prems(3) r1 fr by (rule local_stepI) auto
  let ?w1 = "\<lparr>mem = h1, objs = AList.update this l1 (objs w)\<rparr>"
  from on_object_inv[where f = "push_back v", OF Cons.prems(1,2) pb ls] have
    oo: "on_object this (push_back v) w = Some ?w1" and inv1: "world_inv ?w1"
    by simp_all
  have obj1: "map_of (objs ?w1) this = Some l1" by (simp add: update_conv')
  from Cons.IH[OF inv1 obj1, of "cs @ [(length ?h, v)]"] r1
  obtain w' l' new where IH:
    "init_loop this vs ?w1 = Some w'" "world_inv w'"
    "map_of (objs w') = (map_of (objs ?w1))(this \<mapsto> l')"
    "repr (mem w') l' ((cs @ [(length ?h, v)]) @ new)" "map snd new = vs"
    unfolding world.simps by blast
  have "init_loop this (v # vs) w = Some w'" using oo IH(1) by simp
  moreover have "map_of (objs w') = (map_of (objs w))(this \<mapsto> l')"
    using IH(3) by (simp add: update_conv')
  moreover have "repr (mem w') l' (cs @ (length ?h, v) # new)" using IH(4) by simp
  moreover have "map snd ((length ?h, v) # new) = v # vs" using IH(5) by simp
  ultimately show ?case using IH(2)
    by (intro exI[of _ w'] exI[of _ l'] exI[of _ "(length ?h, v) # new"]) simp
qed

lemma init_construct_release_depth:
  "\<exists>w l t.
     init_construct this (replicate n v) \<lparr>mem = [], objs = []\<rparr> = Some w \<and>
     wf_list (mem w) l \<and> map_of (objs w) this = Some l \<and> size_sll l = n \<and>
     elements (mem w) l = Some (replicate n v) \<and>
     release_trace (mem w) (head l) = Some (t, n) \<and> length t = n \<and> distinct t"
proof -
  let ?w0 = "default_construct this \<lparr>mem = [], objs = []\<rparr> :: 'a world"
  have inv0: "world_inv ?w0" by (intro default_construct_inv initial_world_inv)
  have obj0: "map_of (objs ?w0) this = Some \<lparr>head = None, tail = None, list_size = 0\<rparr>"
    by simp
  from init_loop_repr[OF inv0 obj0 repr_empty, of "replicate n v"]
  obtain w l new where w: "init_loop this (replicate n v) ?w0 = Some w" "world_inv w"
    "map_of (objs w) = (map_of (objs ?w0))(this \<mapsto> l)"
    "repr (mem w) l new" "map snd new = replicate n v"
    by auto
  from w(5) have "length (map snd new) = length (replicate n v)" by (rule arg_cong)
  then have len: "length new = n" by (simp only: length_map length_replicate)
  from w(4) have p: "path (mem w) (head l) new None" by (simp add: repr_def)
  have "init_construct this (replicate n v) \<lparr>mem = [], objs = []\<rparr> = Some w"
    using w(1) by (simp add: init_construct_def)
  moreover have "map_of (objs w) this = Some l" using w(3) by simp
  moreover have "size_sll l = n" using w(4) len by (simp add: repr_def size_sll_def)
  moreover have "elements (mem w) l = Some (replicate n v)"
    using w(4,5) by (simp add: repr_elements)
  moreover have "release_trace (mem w) (head l) = Some (rev (map fst new), n)"
    using release_trace_chain[OF p] len by simp
  moreover have "length (rev (map fst new)) = n" using len by simp
  moreover have "distinct (rev (map fst new))" using chain_distinct[OF p] by simp
  moreover have "wf_list (mem w) l" using w(4) by (auto simp: wf_list_repr)
  ultimately show ?thesis by blast
qed

text \<open>
  Claim C9 fails on the code. The spec asks that \<^verbatim>\<open>clear()\<close> and the destructor release
  the chain in a loop, with a call stack whose depth does not depend on the length of the
  list. The code has no such loop: the destructor is defaulted and \<^verbatim>\<open>clear()\<close> calls
  \<^verbatim>\<open>head_.reset()\<close>, so the nodes are released by the destructors of the owning links, one
  nested in the other. On the container built from 1000000 values the release of the head,
  which is what \<^verbatim>\<open>clear()\<close> and the destructor do, has to release 1000000 nodes, each
  once, and nests 1000000 destructor calls deep.
\<close>

theorem release_nests_per_node:
  "\<exists>w l t.
     init_construct 0 (replicate 1000000 (0::int)) \<lparr>mem = [], objs = []\<rparr> = Some w \<and>
     wf_list (mem w) l \<and> map_of (objs w) 0 = Some l \<and> size_sll l = 1000000 \<and>
     elements (mem w) l = Some (replicate 1000000 0) \<and>
     release_trace (mem w) (head l) = Some (t, 1000000) \<and>
     length t = 1000000 \<and> distinct t"
  by (rule init_construct_release_depth)

end
